theory Spec2Isabelle
  imports Main "HOL-Library.Multiset"
begin

section \<open>Python values used by the spiders\<close>

text \<open>
  Python strings are modelled as \<open>string\<close>. Only a handful of characters are ever
  inspected by the code: the line break, the carriage return, the underscore, the dot and
  the slash.
\<close>

abbreviation LF :: char where "LF \<equiv> CHR 0x0A"
abbreviation CR :: char where "CR \<equiv> CHR 0x0D"

text \<open>The exceptions that the modelled code can raise.\<close>

datatype py_exn =
    RequestException
  | JSONDecodeError
  | FileNotFoundError
  | AttributeError
  | TypeError
  | KeyError
  | IndexError

text \<open>A Python call either returns a value or raises.\<close>

datatype 'a result = Return 'a | Raise py_exn

text \<open>
  What \<open>json.loads\<close> produces: \<open>None\<close>, \<open>bool\<close>, \<open>int\<close>, \<open>str\<close>, \<open>list\<close> and
  \<open>dict\<close>. A dict keeps insertion order, so it is an association list (keys distinct in
  every value that \<open>json.loads\<close> builds). A \<open>float\<close> is left out: the spiders copy
  numbers into rows and never look into them, so it would behave as \<open>JInt\<close> does.
\<close>

datatype json =
    JNull
  | JBool bool
  | JInt int
  | JStr string
  | JArr "json list"
  | JObj "(string \<times> json) list"

text \<open>\<open>str(n)\<close> for an integer: decimal digits, with a minus sign when negative.\<close>

definition digit_char :: "nat \<Rightarrow> char" where
  "digit_char d = ''0123456789'' ! d"

function show_nat :: "nat \<Rightarrow> string" where
  "show_nat n = (if n < 10 then [digit_char n] else show_nat (n div 10) @ [digit_char (n mod 10)])"
  by pat_completeness auto
termination
  by (relation "measure id") auto

declare show_nat.simps [simp del]

definition show_int :: "int \<Rightarrow> string" where
  "show_int i = (if i < 0 then CHR ''-'' # show_nat (nat (- i)) else show_nat (nat i))"

text \<open>\<open>s.split(sep)\<close> with a one-character separator: always at least one field.\<close>

fun split_on :: "char \<Rightarrow> string \<Rightarrow> string list" where
  "split_on sep [] = [[]]"
| "split_on sep (c # cs) =
     (if c = sep then [] # split_on sep cs
      else (case split_on sep cs of
              [] \<Rightarrow> [[c]]
            | f # fs \<Rightarrow> (c # f) # fs))"

text \<open>\<open>s.endswith(suf)\<close>.\<close>

definition endswith :: "string \<Rightarrow> string \<Rightarrow> bool" where
  "endswith s suf = (length suf \<le> length s \<and> drop (length s - length suf) s = suf)"

text \<open>\<open>s.replace('\n', ' ')\<close>.\<close>

definition replace_newlines :: "string \<Rightarrow> string" where
  "replace_newlines s = map (\<lambda>c. if c = LF then CHR '' '' else c) s"

text \<open>\<open>d.get(key, '')\<close> on a value: only a dict has \<open>get\<close>.\<close>

definition py_get :: "json \<Rightarrow> string \<Rightarrow> json \<Rightarrow> json result" where
  "py_get v key dflt =
     (case v of
        JObj kvs \<Rightarrow> (case map_of kvs key of None \<Rightarrow> Return dflt | Some x \<Rightarrow> Return x)
      | _ \<Rightarrow> Raise AttributeError)"

text \<open>\<open>d[key]\<close> with a string key: \<open>KeyError\<close> on a dict without the key, \<open>TypeError\<close>
  on every other value (a list or a string cannot be indexed by a string).\<close>

definition py_item :: "json \<Rightarrow> string \<Rightarrow> json result" where
  "py_item v key =
     (case v of
        JObj kvs \<Rightarrow> (case map_of kvs key of None \<Rightarrow> Raise KeyError | Some x \<Rightarrow> Return x)
      | _ \<Rightarrow> Raise TypeError)"

text \<open>\<open>for x in v\<close>: a list yields its elements, a dict its keys, a string its
  characters; nothing else is iterable.\<close>

definition py_iter :: "json \<Rightarrow> json list result" where
  "py_iter v =
     (case v of
        JArr xs \<Rightarrow> Return xs
      | JObj kvs \<Rightarrow> Return (map (\<lambda>kv. JStr (fst kv)) kvs)
      | JStr s \<Rightarrow> Return (map (\<lambda>c. JStr [c]) s)
      | _ \<Rightarrow> Raise TypeError)"

section \<open>Targets and configuration\<close>

text \<open>A product identifier as a manifest carries it: a string or an integer.\<close>

datatype ident = IdStr string | IdInt int

text \<open>How an f-string renders the identifier.\<close>

fun format_id :: "ident \<Rightarrow> string" where
  "format_id (IdStr s) = s"
| "format_id (IdInt i) = show_int i"

fun json_of_id :: "ident \<Rightarrow> json" where
  "json_of_id (IdStr s) = JStr s"
| "json_of_id (IdInt i) = JInt i"

datatype kind = Com | QA

text \<open>\<open>COMMENT_PARAM\<close>, \<open>QA_PARAM\<close> of \<open>config.py\<close>.\<close>

record config =
  com_pages :: int
  score :: int
  sort_type :: int
  page_size :: int
  qa_pages :: int

section \<open>The world the spiders act on\<close>

datatype persist_result = Persisted | Skipped | PersistError

text \<open>
  Observable steps of a run, in the order they happen. \<open>Request\<close> is the one
  \<open>requests.get\<close> of \<open>send_request\<close>; \<open>Persist\<close> is the outcome of
  \<open>save_comments\<close> or \<open>save_data\<close>; \<open>CheckpointAppend\<close> is the write to the checkpoint
  file. \<open>SkipTarget\<close>, \<open>StartCrawl\<close> and \<open>PageTask\<close> mark the \<open>continue\<close> of the
  orchestrator, a call of \<open>start_crawling\<close> and a call of \<open>crawl_page\<close>.
\<close>

datatype event =
    SkipTarget ident
  | StartCrawl kind ident
  | PageTask kind ident int
  | Request string
  | Persist kind ident persist_result
  | CheckpointAppend string

text \<open>The checkpoint file \<open>./resume_checkpoint.txt\<close>: missing, not decodable as text
  (reading raises a \<open>ValueError\<close>), or text.\<close>

datatype checkpoint_file = Absent | Undecodable | Text string

record state =
  trace :: "event list"
  output_dir :: "string list"
  checkpoint :: checkpoint_file

text \<open>What \<open>requests.get\<close> gives: a network-level failure, or a response with its
  status code and text.\<close>

datatype http_outcome = ConnectionFailed | Response nat string

text \<open>
  Everything outside the program: the remote service, \<open>json.loads\<close>, whether
  \<open>to_csv\<close> succeeds, and the order in which the thread pool settles its tasks. The
  number of events recorded so far serves as the time of a call, so the same URL may
  be answered differently at different times.
\<close>

record env =
  http_get :: "nat \<Rightarrow> string \<Rightarrow> http_outcome"
  json_loads :: "string \<Rightarrow> json option"
  to_csv_ok :: "nat \<Rightarrow> string \<Rightarrow> bool"
  pick :: "nat \<Rightarrow> nat"

definition log_event :: "event \<Rightarrow> state \<Rightarrow> state" where
  "log_event e st = st\<lparr>trace := trace st @ [e]\<rparr>"

definition rbind :: "'a result \<Rightarrow> ('a \<Rightarrow> 'b result) \<Rightarrow> 'b result" where
  "rbind r f = (case r of Raise e \<Rightarrow> Raise e | Return x \<Rightarrow> f x)"

text \<open>\<open>response.raise_for_status()\<close> raises for the status codes 400 to 599.\<close>

definition raise_for_status :: "nat \<Rightarrow> bool" where
  "raise_for_status code = (400 \<le> code \<and> code < 600)"

section \<open>Fetchers\<close>

text \<open>\<open>JDCommentSpider.send_request\<close>: one request; a failure is logged and raised again.\<close>

definition com_send_request :: "env \<Rightarrow> state \<Rightarrow> string \<Rightarrow> state \<times> string result" where
  "com_send_request ev st url =
     (let st' = log_event (Request url) st in
      case http_get ev (length (trace st)) url of
        ConnectionFailed \<Rightarrow> (st', Raise RequestException)
      | Response code txt \<Rightarrow>
          if raise_for_status code then (st', Raise RequestException)
          else (st', Return txt))"

text \<open>\<open>JDQASpider.send_request\<close>: one request; a failure is logged and the function falls
  off its end, returning \<open>None\<close>.\<close>

definition qa_send_request :: "env \<Rightarrow> state \<Rightarrow> string \<Rightarrow> state \<times> string option result" where
  "qa_send_request ev st url =
     (let st' = log_event (Request url) st in
      case http_get ev (length (trace st)) url of
        ConnectionFailed \<Rightarrow> (st', Return None)
      | Response code txt \<Rightarrow>
          if raise_for_status code then (st', Return None)
          else (st', Return (Some txt)))"

definition com_url :: "config \<Rightarrow> ident \<Rightarrow> int \<Rightarrow> string" where
  "com_url cfg pid page =
     ''https://api.m.jd.com/?appid=item-v3&functionId=pc_club_productPageComments&''
     @ ''productId='' @ format_id pid @ ''&score='' @ show_int (score cfg)
     @ ''&sortType='' @ show_int (sort_type cfg) @ ''&page='' @ show_int page
     @ ''&pageSize='' @ show_int (page_size cfg) @ ''&isShadowSku=0&fold=0&bbtf=&shield''"

definition qa_url :: "ident \<Rightarrow> int \<Rightarrow> string" where
  "qa_url pid page =
     ''https://api.m.jd.com/?appid=item-v3&''
     @ ''functionId=getQuestionAnswerList&client=pc&clientVersion=1.0.0&page='' @ show_int page
     @ ''&productId='' @ format_id pid"

definition get_comments :: "env \<Rightarrow> config \<Rightarrow> ident \<Rightarrow> state \<Rightarrow> int \<Rightarrow> state \<times> string result" where
  "get_comments ev cfg pid st page = com_send_request ev st (com_url cfg pid page)"

definition get_qa :: "env \<Rightarrow> ident \<Rightarrow> state \<Rightarrow> int \<Rightarrow> state \<times> string option result" where
  "get_qa ev pid st page = qa_send_request ev st (qa_url pid page)"

section \<open>Parsers\<close>

text \<open>A row of the data frame: its cells in column order. A data frame is the list of
  its rows; \<open>len(df)\<close> is the number of rows and \<open>df.empty\<close> says there is none.\<close>

type_synonym row = "json list"

text \<open>\<open>x.replace('\n', ' ')\<close>: only a string has \<open>replace\<close>.\<close>

definition py_replace :: "json \<Rightarrow> json result" where
  "py_replace v = (case v of JStr s \<Rightarrow> Return (JStr (replace_newlines s)) | _ \<Rightarrow> Raise AttributeError)"

definition parse_comment :: "ident \<Rightarrow> json \<Rightarrow> row result" where
  "parse_comment pid comment =
     rbind (py_get comment ''id'' (JStr [])) (\<lambda>user_id.
     rbind (py_get comment ''nickname'' (JStr [])) (\<lambda>user_name.
     rbind (rbind (py_get comment ''content'' (JStr [])) py_replace) (\<lambda>content.
     rbind (py_get comment ''creationTime'' (JStr [])) (\<lambda>create_time.
     rbind (py_get comment ''score'' (JStr [])) (\<lambda>score.
     rbind (py_get comment ''location'' (JStr [])) (\<lambda>location.
     rbind (py_get comment ''referenceName'' (JStr [])) (\<lambda>product_name.
     Return [user_id, user_name, content, create_time, score, location,
             json_of_id pid, product_name])))))))"

text \<open>The \<open>for comment in comments\<close> loop: the first exception leaves the function.\<close>

fun comments_loop :: "ident \<Rightarrow> json list \<Rightarrow> row list \<Rightarrow> row list result" where
  "comments_loop pid [] comm_list = Return comm_list"
| "comments_loop pid (comment # rest) comm_list =
     rbind (parse_comment pid comment) (\<lambda>r. comments_loop pid rest (comm_list @ [r]))"

definition parse_comments_json :: "ident \<Rightarrow> json \<Rightarrow> row list result" where
  "parse_comments_json pid json_obj =
     rbind (py_get json_obj ''comments'' (JArr [])) (\<lambda>comments.
     rbind (py_iter comments) (\<lambda>cs. comments_loop pid cs []))"

definition parse_comments :: "env \<Rightarrow> ident \<Rightarrow> string \<Rightarrow> row list result" where
  "parse_comments ev pid response =
     (case json_loads ev response of
        None \<Rightarrow> Raise JSONDecodeError
      | Some json_obj \<Rightarrow> parse_comments_json pid json_obj)"

definition parse_answer :: "json \<Rightarrow> json \<Rightarrow> json \<Rightarrow> json \<Rightarrow> json \<Rightarrow> row result" where
  "parse_answer qid content product_id created_time answer =
     rbind (py_get answer ''id'' (JStr [])) (\<lambda>answer_id.
     rbind (py_get answer ''content'' (JStr [])) (\<lambda>answer_content.
     rbind (py_get answer ''created'' (JStr [])) (\<lambda>answer_created_time.
     rbind (py_get answer ''location'' (JStr [])) (\<lambda>location.
     Return [qid, content, product_id, created_time, answer_id, answer_content,
             answer_created_time, location]))))"

text \<open>The loops of \<open>parse_qa\<close> run inside one \<open>try\<close>: an exception ends both loops and
  keeps the rows appended so far.\<close>

fun answers_loop ::
  "json \<Rightarrow> json \<Rightarrow> json \<Rightarrow> json \<Rightarrow> json list \<Rightarrow> row list \<Rightarrow> row list \<times> py_exn option" where
  "answers_loop qid content product_id created_time [] qa_list = (qa_list, None)"
| "answers_loop qid content product_id created_time (answer # rest) qa_list =
     (case parse_answer qid content product_id created_time answer of
        Raise e \<Rightarrow> (qa_list, Some e)
      | Return r \<Rightarrow> answers_loop qid content product_id created_time rest (qa_list @ [r]))"

definition question_fields :: "json \<Rightarrow> (json \<times> json \<times> json \<times> json) result" where
  "question_fields qa =
     rbind (py_get qa ''id'' (JStr [])) (\<lambda>qid.
     rbind (py_get qa ''content'' (JStr [])) (\<lambda>content.
     rbind (py_get qa ''productId'' (JStr [])) (\<lambda>product_id.
     rbind (py_get qa ''created'' (JStr [])) (\<lambda>created_time.
     Return (qid, content, product_id, created_time)))))"

fun questions_loop :: "json list \<Rightarrow> row list \<Rightarrow> row list \<times> py_exn option" where
  "questions_loop [] qa_list = (qa_list, None)"
| "questions_loop (qa # rest) qa_list =
     (case question_fields qa of
        Raise e \<Rightarrow> (qa_list, Some e)
      | Return (qid, content, product_id, created_time) \<Rightarrow>
          (case py_item qa ''answerList'' of
             Raise e \<Rightarrow> (qa_list, Some e)
           | Return answer_list \<Rightarrow>
               (case py_iter answer_list of
                  Raise e \<Rightarrow> (qa_list, Some e)
                | Return answers \<Rightarrow>
                    (case answers_loop qid content product_id created_time answers qa_list of
                       (qa_list', Some e) \<Rightarrow> (qa_list', Some e)
                     | (qa_list', None) \<Rightarrow> questions_loop rest qa_list'))))"

definition parse_qa_json :: "json \<Rightarrow> row list result" where
  "parse_qa_json json_obj =
     rbind (py_get json_obj ''questionList'' (JArr [])) (\<lambda>qa_data.
     Return (case py_iter qa_data of
               Raise e \<Rightarrow> []
             | Return qs \<Rightarrow> fst (questions_loop qs [])))"

definition parse_qa :: "env \<Rightarrow> string \<Rightarrow> row list result" where
  "parse_qa ev response =
     (case json_loads ev response of
        None \<Rightarrow> Raise JSONDecodeError
      | Some json_obj \<Rightarrow> parse_qa_json json_obj)"

section \<open>Persisters\<close>

text \<open>
  The output directory is the list of the names in it. \<open>to_csv\<close> on an existing file
  overwrites it; a name with a slash in it does not name a file of this directory. A
  failing \<open>to_csv\<close> is taken to leave the directory as it was.
\<close>

definition write_file :: "string \<Rightarrow> string list \<Rightarrow> string list" where
  "write_file name dir = (if CHR ''/'' \<in> set name then dir else List.insert name dir)"

definition artifact_name :: "kind \<Rightarrow> ident \<Rightarrow> string" where
  "artifact_name k pid =
     (case k of Com \<Rightarrow> ''com_'' | QA \<Rightarrow> ''qa_'') @ format_id pid @ ''.csv''"

text \<open>The body shared by \<open>save_comments\<close> and \<open>save_data\<close>, which differ in the file
  name only.\<close>

definition save_frame :: "kind \<Rightarrow> env \<Rightarrow> state \<Rightarrow> ident \<Rightarrow> row list \<Rightarrow> state" where
  "save_frame k ev st pid df =
     (if length df \<le> 1 then log_event (Persist k pid Skipped) st
      else if to_csv_ok ev (length (trace st)) (artifact_name k pid)
      then log_event (Persist k pid Persisted)
             (st\<lparr>output_dir := write_file (artifact_name k pid) (output_dir st)\<rparr>)
      else log_event (Persist k pid PersistError) st)"

definition save_comments :: "env \<Rightarrow> state \<Rightarrow> ident \<Rightarrow> row list \<Rightarrow> state" where
  "save_comments = save_frame Com"

definition save_data :: "env \<Rightarrow> state \<Rightarrow> ident \<Rightarrow> row list \<Rightarrow> state" where
  "save_data = save_frame QA"

section \<open>Page tasks and the worker pool\<close>

text \<open>
  \<open>crawl_page\<close> works on the state together with the rows collected so far
  (\<open>self.comm_data\<close>, \<open>self.qa_data\<close>). The delays and the log lines are left out. A task
  that raises ends there: its exception stays in the future that nobody reads.
\<close>

definition com_crawl_page ::
  "env \<Rightarrow> config \<Rightarrow> ident \<Rightarrow> state \<times> row list \<Rightarrow> int \<Rightarrow> (state \<times> row list) \<times> unit result" where
  "com_crawl_page ev cfg pid s page =
     (case get_comments ev cfg pid (log_event (PageTask Com pid page) (fst s)) page of
        (st, Raise e) \<Rightarrow> ((st, snd s), Raise e)
      | (st, Return response) \<Rightarrow>
          if response = [] then ((st, snd s), Return ())
          else (case parse_comments ev pid response of
                  Raise e \<Rightarrow> ((st, snd s), Raise e)
                | Return comments \<Rightarrow>
                    if comments = [] then ((st, snd s), Return ())
                    else ((st, snd s @ comments), Return ())))"

definition qa_crawl_page ::
  "env \<Rightarrow> ident \<Rightarrow> state \<times> row list \<Rightarrow> int \<Rightarrow> (state \<times> row list) \<times> unit result" where
  "qa_crawl_page ev pid s page =
     (case get_qa ev pid (log_event (PageTask QA pid page) (fst s)) page of
        (st, Raise e) \<Rightarrow> ((st, snd s), Raise e)
      | (st, Return None) \<Rightarrow> ((st, snd s), Return ())
      | (st, Return (Some response)) \<Rightarrow>
          if response = [] then ((st, snd s), Return ())
          else (case parse_qa ev response of
                  Raise e \<Rightarrow> ((st, snd s), Raise e)
                | Return qa_data \<Rightarrow>
                    if qa_data = [] then ((st, snd s), Return ())
                    else ((st, snd s @ qa_data), Return ())))"

text \<open>\<open>range(n)\<close> and \<open>range(1, n + 1)\<close>.\<close>

definition py_range :: "int \<Rightarrow> int list" where
  "py_range n = [0..n - 1]"

definition py_range1 :: "int \<Rightarrow> int list" where
  "py_range1 n = [1..n]"

text \<open>
  The thread pool: every submitted task runs, and the \<open>with\<close> block ends when all of
  them have. Tasks touch shared data only inside the lock, so a run of the pool is the
  tasks in some order; the environment picks the next one among those still pending.
\<close>

definition remove_nth :: "nat \<Rightarrow> 'a list \<Rightarrow> 'a list" where
  "remove_nth i xs = take i xs @ drop (Suc i) xs"

function run_pool ::
  "(nat \<Rightarrow> nat) \<Rightarrow> ('s \<Rightarrow> nat) \<Rightarrow> ('s \<Rightarrow> int \<Rightarrow> 's) \<Rightarrow> 's \<Rightarrow> int list \<Rightarrow> 's" where
  "run_pool ch clock task s pending =
     (if pending = [] then s
      else (let i = ch (clock s) mod length pending
            in run_pool ch clock task (task s (pending ! i)) (remove_nth i pending)))"
  by pat_completeness auto
termination
proof (relation "measure (\<lambda>(ch, clock, task, s, pending). length pending)")
  show "wf (measure (\<lambda>(ch, clock, task, s, pending). length (pending :: int list)))"
    by simp
next
  fix ch :: "nat \<Rightarrow> nat" and clock :: "'s \<Rightarrow> nat" and task :: "'s \<Rightarrow> int \<Rightarrow> 's"
    and s pending i
  assume "pending \<noteq> []" and "i = ch (clock s) mod length (pending :: int list)"
  then have "i < length pending"
    by simp
  then show "((ch, clock, task, task s (pending ! i), remove_nth i pending),
              (ch, clock, task, s, pending))
             \<in> measure (\<lambda>(ch, clock, task, s, pending). length pending)"
    by (simp add: remove_nth_def)
qed

declare run_pool.simps [simp del]

definition clock :: "state \<times> row list \<Rightarrow> nat" where
  "clock s = length (trace (fst s))"

text \<open>The \<open>with ThreadPoolExecutor(...)\<close> block of \<open>start_crawling\<close>: the data frame is
  emptied, one task per page is submitted, and the block ends when all have run.\<close>

definition com_collect :: "env \<Rightarrow> config \<Rightarrow> state \<Rightarrow> ident \<Rightarrow> state \<times> row list" where
  "com_collect ev cfg st product_id =
     run_pool (pick ev) clock
       (\<lambda>s page. fst (com_crawl_page ev cfg product_id s page))
       (log_event (StartCrawl Com product_id) st, [])
       (py_range (com_pages cfg))"

definition qa_collect :: "env \<Rightarrow> config \<Rightarrow> state \<Rightarrow> ident \<Rightarrow> state \<times> row list" where
  "qa_collect ev cfg st product_id =
     run_pool (pick ev) clock
       (\<lambda>s page. fst (qa_crawl_page ev product_id s page))
       (log_event (StartCrawl QA product_id) st, [])
       (py_range1 (qa_pages cfg))"

definition com_start_crawling :: "env \<Rightarrow> config \<Rightarrow> state \<Rightarrow> ident \<Rightarrow> state" where
  "com_start_crawling ev cfg st product_id =
     (let s = com_collect ev cfg st product_id
      in save_comments ev (fst s) product_id (snd s))"

definition qa_start_crawling :: "env \<Rightarrow> config \<Rightarrow> state \<Rightarrow> ident \<Rightarrow> state" where
  "qa_start_crawling ev cfg st product_id =
     (let s = qa_collect ev cfg st product_id
      in save_data ev (fst s) product_id (snd s))"

section \<open>The resume orchestrator\<close>

text \<open>
  A manifest as \<open>json.load\<close> returns it: a dict from a keyword to a list of product
  descriptions, each a dict whose values are strings or integers. A directory entry of
  the manifest directory is a directory or a file; opening and decoding a file gives a
  \<open>JSONDecodeError\<close>, a \<open>FileNotFoundError\<close> or the manifest.
\<close>

type_synonym product_info = "(string \<times> ident) list"
type_synonym manifest = "(string \<times> product_info list) list"

datatype load_result = DecodeFails | OpenFails | Loaded manifest

datatype dir_entry = Directory | File load_result

text \<open>Reading a text file translates \<open>\r\n\<close> and a lone \<open>\r\<close> to \<open>\n\<close>.\<close>

fun universal_newlines :: "string \<Rightarrow> string" where
  "universal_newlines [] = []"
| "universal_newlines [c] = [if c = CR then LF else c]"
| "universal_newlines (c # d # ds) =
     (if c = CR \<and> d = LF then LF # universal_newlines ds
      else (if c = CR then LF else c) # universal_newlines (d # ds))"

text \<open>\<open>readlines()\<close>: every line keeps its line break; \<open>cur\<close> is the line being read.\<close>

fun lines_from :: "string \<Rightarrow> string \<Rightarrow> string list" where
  "lines_from cur [] = (if cur = [] then [] else [cur])"
| "lines_from cur (c # cs) =
     (if c = LF then (cur @ [c]) # lines_from [] cs else lines_from (cur @ [c]) cs)"

definition readlines :: "string \<Rightarrow> string list" where
  "readlines txt = lines_from [] (universal_newlines txt)"

text \<open>\<open>x.strip("\n")\<close>: line breaks are removed at both ends.\<close>

definition strip_newline :: "string \<Rightarrow> string" where
  "strip_newline x = rev (dropWhile (\<lambda>c. c = LF) (rev (dropWhile (\<lambda>c. c = LF) x)))"

definition checkpoint_content :: "string \<Rightarrow> string list" where
  "checkpoint_content txt = map strip_newline (readlines txt)"

text \<open>\<open>checkpoint_file.write(filename + "\n")\<close> on a file opened for appending.\<close>

definition append_checkpoint :: "string \<Rightarrow> state \<Rightarrow> state" where
  "append_checkpoint filename st =
     log_event (CheckpointAppend filename)
       (st\<lparr>checkpoint :=
          (case checkpoint st of
             Absent \<Rightarrow> Text (filename @ [LF])
           | Undecodable \<Rightarrow> Undecodable
           | Text c \<Rightarrow> Text (c @ filename @ [LF]))\<rparr>)"

text \<open>\<open>file.split('_')[1].split('.')[0]\<close>: an \<open>IndexError\<close> when the name has no
  underscore.\<close>

definition index_entry :: "string \<Rightarrow> string result" where
  "index_entry file =
     (case split_on (CHR ''_'') file of
        a # b # rest \<Rightarrow> (case split_on (CHR ''.'') b of
                          f # fs \<Rightarrow> Return f
                        | [] \<Rightarrow> Raise IndexError)
      | _ \<Rightarrow> Raise IndexError)"

text \<open>The list comprehension over the names of the output directory.\<close>

fun completed_index :: "string list \<Rightarrow> string list result" where
  "completed_index [] = Return []"
| "completed_index (file # files) =
     (if endswith file ''.csv''
      then rbind (index_entry file) (\<lambda>x.
           rbind (completed_index files) (\<lambda>xs. Return (x # xs)))
      else completed_index files)"

text \<open>\<open>product_id in output_files\<close>: the list holds strings, and an integer never
  equals a string.\<close>

fun id_in :: "ident \<Rightarrow> string list \<Rightarrow> bool" where
  "id_in (IdStr s) output_files = (s \<in> set output_files)"
| "id_in (IdInt i) output_files = False"

text \<open>The loop over the products of a manifest. Only the comment spider is called.\<close>

fun process_targets ::
  "env \<Rightarrow> config \<Rightarrow> string list \<Rightarrow> state \<Rightarrow> product_info list \<Rightarrow> state \<times> unit result" where
  "process_targets ev cfg output_files st [] = (st, Return ())"
| "process_targets ev cfg output_files st (product_info # rest) =
     (case map_of product_info ''sku'' of
        None \<Rightarrow> (st, Raise KeyError)
      | Some product_id \<Rightarrow>
          if id_in product_id output_files
          then process_targets ev cfg output_files (log_event (SkipTarget product_id) st) rest
          else process_targets ev cfg output_files (com_start_crawling ev cfg st product_id) rest)"

text \<open>
  The body of the loop over the files of the manifest directory. The \<open>except\<close> clause
  catches a \<open>JSONDecodeError\<close> and a \<open>FileNotFoundError\<close>, which only opening and
  decoding the file raise here; an \<open>IndexError\<close> or a \<open>KeyError\<close> is not caught: it
  leaves the function and ends the run.
\<close>

definition process_file :: "env \<Rightarrow> config \<Rightarrow> state \<Rightarrow> string \<times> dir_entry \<Rightarrow> state \<times> unit result" where
  "process_file ev cfg st f =
     (case snd f of
        Directory \<Rightarrow> (st, Return ())
      | File content \<Rightarrow>
          if \<not> endswith (fst f) ''.json'' then (st, Return ())
          else (case content of
                  DecodeFails \<Rightarrow> (st, Return ())
                | OpenFails \<Rightarrow> (st, Return ())
                | Loaded data \<Rightarrow>
                    (case completed_index (output_dir st) of
                       Raise e \<Rightarrow> (st, Raise e)
                     | Return output_files \<Rightarrow>
                         (case data of
                            [] \<Rightarrow> (st, Raise IndexError)
                          | kv # others \<Rightarrow>
                              (case process_targets ev cfg output_files st (snd kv) of
                                 (st', Raise e) \<Rightarrow> (st', Raise e)
                               | (st', Return u) \<Rightarrow>
                                   (append_checkpoint (fst f) st', Return ()))))))"

fun process_files ::
  "env \<Rightarrow> config \<Rightarrow> state \<Rightarrow> (string \<times> dir_entry) list \<Rightarrow> state \<times> unit result" where
  "process_files ev cfg st [] = (st, Return ())"
| "process_files ev cfg st (f # files) =
     (case process_file ev cfg st f of
        (st', Raise e) \<Rightarrow> (st', Raise e)
      | (st', Return u) \<Rightarrow> process_files ev cfg st' files)"

text \<open>
  \<open>crawl_comments_and_qa\<close>. The manifest directory is \<open>None\<close> when the path does not
  exist, otherwise its entries in the order of \<open>os.listdir\<close>. The output directory is
  created when missing, so it is a list that may be empty. \<open>main\<close> passes
  \<open>config.DATA_PATH\<close> as output directory, which is where the spiders write.
\<close>

definition files_to_process :: "checkpoint_file \<Rightarrow> (string \<times> dir_entry) list \<Rightarrow> (string \<times> dir_entry) list" where
  "files_to_process cp files =
     (case cp of
        Text c \<Rightarrow> filter (\<lambda>f. fst f \<notin> set (checkpoint_content c)) files
      | _ \<Rightarrow> files)"

definition crawl_comments_and_qa ::
  "env \<Rightarrow> config \<Rightarrow> (string \<times> dir_entry) list option \<Rightarrow> state \<Rightarrow> state \<times> unit result" where
  "crawl_comments_and_qa ev cfg ids_collection_dir st =
     (case ids_collection_dir of
        None \<Rightarrow> (st, Return ())
      | Some files \<Rightarrow>
          (case checkpoint st of
             Undecodable \<Rightarrow> (st, Return ())
           | _ \<Rightarrow> process_files ev cfg st (files_to_process (checkpoint st) files)))"

section \<open>Notions used to state the properties\<close>

text \<open>The request failed: no connection, or a status that \<open>raise_for_status\<close> rejects.\<close>

fun failed :: "http_outcome \<Rightarrow> bool" where
  "failed ConnectionFailed = True"
| "failed (Response code txt) = raise_for_status code"

text \<open>The events that a step added to the trace.\<close>

definition new_events :: "state \<Rightarrow> state \<Rightarrow> event list" where
  "new_events st st' = drop (length (trace st)) (trace st')"

text \<open>The page indices of the page tasks of one kind and target, in the order of the trace.\<close>

fun pages_of :: "kind \<Rightarrow> ident \<Rightarrow> event list \<Rightarrow> int list" where
  "pages_of k pid [] = []"
| "pages_of k pid (PageTask k' pid' page # es) =
     (if k' = k \<and> pid' = pid then page # pages_of k pid es else pages_of k pid es)"
| "pages_of k pid (e # es) = pages_of k pid es"

text \<open>The targets that have been dealt with, in order: skipped because an artifact
  exists, or crawled up to the outcome of the persister.\<close>

fun settled :: "event list \<Rightarrow> ident list" where
  "settled [] = []"
| "settled (SkipTarget pid # es) = pid # settled es"
| "settled (Persist k pid r # es) = pid # settled es"
| "settled (e # es) = settled es"

text \<open>The event belongs to a crawl of the target.\<close>

fun crawls :: "ident \<Rightarrow> event \<Rightarrow> bool" where
  "crawls pid (StartCrawl k pid') = (pid' = pid)"
| "crawls pid (PageTask k pid' page) = (pid' = pid)"
| "crawls pid (Persist k pid' r) = (pid' = pid)"
| "crawls pid e = False"

fun is_request :: "event \<Rightarrow> bool" where
  "is_request (Request url) = True"
| "is_request e = False"

fun is_checkpoint :: "event \<Rightarrow> bool" where
  "is_checkpoint (CheckpointAppend name) = True"
| "is_checkpoint e = False"

text \<open>An identifier that the scan of the file names gives back: it has no underscore,
  no dot and no slash.\<close>

definition clean_id :: "string \<Rightarrow> bool" where
  "clean_id s = (CHR ''_'' \<notin> set s \<and> CHR ''.'' \<notin> set s \<and> CHR ''/'' \<notin> set s)"

text \<open>A file name that survives the round trip through the checkpoint file: it has no
  line break in it.\<close>

definition one_line :: "string \<Rightarrow> bool" where
  "one_line name = (LF \<notin> set name \<and> CR \<notin> set name)"

text \<open>A checkpoint file as the orchestrator leaves it: every line is ended.\<close>

fun ended_lines :: "checkpoint_file \<Rightarrow> bool" where
  "ended_lines (Text c) = (c = [] \<or> last c = LF)"
| "ended_lines cp = True"

text \<open>
  The expansion of question and answer payloads in the words of the specification: a
  question with its answers gives one record per answer, each carrying the question's
  id, content, product id and creation time, an absent field being the empty string.
\<close>

definition field :: "json \<Rightarrow> string \<Rightarrow> json" where
  "field obj key =
     (case obj of
        JObj kvs \<Rightarrow> (case map_of kvs key of None \<Rightarrow> JStr [] | Some v \<Rightarrow> v)
      | _ \<Rightarrow> JStr [])"

definition answers_of :: "json \<Rightarrow> json list" where
  "answers_of q =
     (case py_item q ''answerList'' of
        Raise e \<Rightarrow> []
      | Return answer_list \<Rightarrow> (case py_iter answer_list of Raise e \<Rightarrow> [] | Return xs \<Rightarrow> xs))"

definition qa_record :: "json \<Rightarrow> json \<Rightarrow> row" where
  "qa_record q a =
     [field q ''id'', field q ''content'', field q ''productId'', field q ''created'',
      field a ''id'', field a ''content'', field a ''created'', field a ''location'']"

definition expand_question :: "json \<Rightarrow> row list" where
  "expand_question q = map (qa_record q) (answers_of q)"

fun is_object :: "json \<Rightarrow> bool" where
  "is_object (JObj kvs) = True"
| "is_object v = False"

text \<open>A question that carries answers: an object with an \<open>answerList\<close> that can be
  iterated and holds objects.\<close>

definition carries_answers :: "json \<Rightarrow> bool" where
  "carries_answers q =
     (is_object q \<and>
      (case py_item q ''answerList'' of
         Raise e \<Rightarrow> False
       | Return answer_list \<Rightarrow>
           (case py_iter answer_list of Raise e \<Rightarrow> False | Return xs \<Rightarrow> list_all is_object xs)))"

text \<open>The entry is a file with a \<open>.json\<close> name that opens and decodes: the only kind
  of entry for which the orchestrator does anything.\<close>

definition loads :: "string \<times> dir_entry \<Rightarrow> bool" where
  "loads f =
     (endswith (fst f) ''.json'' \<and>
      (case snd f of File (Loaded data) \<Rightarrow> True | _ \<Rightarrow> False))"

text \<open>The manifest names that a run reads from the checkpoint file.\<close>

fun recorded :: "checkpoint_file \<Rightarrow> string list" where
  "recorded (Text c) = checkpoint_content c"
| "recorded cp = []"

text \<open>The names appended to the checkpoint, in the order of the trace.\<close>

fun appended :: "event list \<Rightarrow> string list" where
  "appended [] = []"
| "appended (CheckpointAppend name # es) = name # appended es"
| "appended (e # es) = appended es"

text \<open>The identifiers that a manifest lists: the \<open>sku\<close> of each product under its first
  keyword (the search spider writes one keyword per file), \<open>None\<close> for a product without.\<close>

definition listed :: "manifest \<Rightarrow> ident option list" where
  "listed data =
     (case data of [] \<Rightarrow> [] | kv # others \<Rightarrow> map (\<lambda>info. map_of info ''sku'') (snd kv))"

text \<open>
  Every append to the checkpoint in \<open>evs\<close> names a manifest of the directory that
  decoded, and comes right after a stretch of events in which each target that the
  manifest lists has been dealt with, in order.
\<close>

definition justified :: "(string \<times> dir_entry) list \<Rightarrow> event list \<Rightarrow> bool" where
  "justified files evs =
     (\<forall>pre name post. evs = pre @ CheckpointAppend name # post \<longrightarrow>
        (\<exists>data before seg.
           (name, File (Loaded data)) \<in> set files \<and> pre = before @ seg \<and>
           map Some (settled seg) = listed data))"

text \<open>The two spiders, by kind.\<close>

definition collect :: "kind \<Rightarrow> env \<Rightarrow> config \<Rightarrow> state \<Rightarrow> ident \<Rightarrow> state \<times> row list" where
  "collect k = (case k of Com \<Rightarrow> com_collect | QA \<Rightarrow> qa_collect)"

definition start_crawling :: "kind \<Rightarrow> env \<Rightarrow> config \<Rightarrow> state \<Rightarrow> ident \<Rightarrow> state" where
  "start_crawling k = (case k of Com \<Rightarrow> com_start_crawling | QA \<Rightarrow> qa_start_crawling)"

definition pages :: "kind \<Rightarrow> config \<Rightarrow> int list" where
  "pages k cfg = (case k of Com \<Rightarrow> py_range (com_pages cfg) | QA \<Rightarrow> py_range1 (qa_pages cfg))"

section \<open>Concrete environments\<close>

definition cfg_pages :: "int \<Rightarrow> config" where
  "cfg_pages n = \<lparr>com_pages = n, score = 1, sort_type = 6, page_size = 10, qa_pages = n\<rparr>"

definition st_fresh :: state where
  "st_fresh = \<lparr>trace = [], output_dir = [], checkpoint = Absent\<rparr>"

text \<open>The service is unreachable.\<close>

definition env_down :: env where
  "env_down =
     \<lparr>http_get = (\<lambda>t url. ConnectionFailed), json_loads = (\<lambda>txt. None),
      to_csv_ok = (\<lambda>t path. True), pick = (\<lambda>t. 0)\<rparr>"

text \<open>Every page holds the comments listed in \<open>cs\<close>.\<close>

definition env_comments :: "json list \<Rightarrow> env" where
  "env_comments cs =
     \<lparr>http_get = (\<lambda>t url. Response 200 ''ok''),
      json_loads = (\<lambda>txt. Some (JObj [(''comments'', JArr cs)])),
      to_csv_ok = (\<lambda>t path. True), pick = (\<lambda>t. 0)\<rparr>"

definition comment_a :: json where
  "comment_a = JObj [(''id'', JInt 1), (''content'', JStr ''good'')]"

definition comment_b :: json where
  "comment_b = JObj [(''id'', JInt 2)]"

definition question_no_answers :: json where
  "question_no_answers = JObj [(''id'', JInt 1), (''content'', JStr ''why'')]"

definition question_one_answer :: json where
  "question_one_answer =
     JObj [(''id'', JInt 2), (''answerList'', JArr [JObj [(''id'', JInt 3)]])]"

definition question_zero_answers :: json where
  "question_zero_answers = JObj [(''id'', JInt 5), (''answerList'', JArr [])]"

definition payload_two_questions :: json where
  "payload_two_questions =
     JObj [(''questionList'', JArr [question_zero_answers, question_one_answer])]"

definition manifest_of :: "ident list \<Rightarrow> dir_entry" where
  "manifest_of pids =
     File (Loaded [(''keyword'', map (\<lambda>pid. [(''sku'', pid), (''description'', IdStr ''d'')]) pids)])"

text \<open>A run over one manifest whose target is the integer 111, each page holding two
  comments; and a later manifest that lists the same target.\<close>

definition integer_target_run :: "state \<times> unit result" where
  "integer_target_run =
     crawl_comments_and_qa (env_comments [comment_a, comment_b]) (cfg_pages 1)
       (Some [(''m.json'', manifest_of [IdInt 111])]) st_fresh"

definition integer_target_again :: "state \<times> unit result" where
  "integer_target_again =
     crawl_comments_and_qa (env_comments [comment_a, comment_b]) (cfg_pages 1)
       (Some [(''n.json'', manifest_of [IdInt 111])]) (fst integer_target_run)"

text \<open>An output directory that holds a question and answer artifact for 222.\<close>

definition st_qa_artifact :: state where
  "st_qa_artifact = \<lparr>trace = [], output_dir = [''qa_222.csv''], checkpoint = Absent\<rparr>"

definition string_target_pass :: "state \<times> unit result" where
  "string_target_pass =
     crawl_comments_and_qa (env_comments [comment_a, comment_b]) (cfg_pages 1)
       (Some [(''m.json'', manifest_of [IdStr ''222''])]) st_qa_artifact"

definition integer_target_pass :: "state \<times> unit result" where
  "integer_target_pass =
     crawl_comments_and_qa (env_comments [comment_a, comment_b]) (cfg_pages 1)
       (Some [(''m.json'', manifest_of [IdInt 222])]) st_qa_artifact"

text \<open>A manifest directory with a file that does not decode and one that does.\<close>

definition two_manifests :: "(string \<times> dir_entry) list" where
  "two_manifests = [(''bad.json'', File DecodeFails), (''m.json'', manifest_of [IdStr ''7''])]"

text \<open>A run over one manifest with one target, whose only page holds one comment.\<close>

definition single_record_dir :: "(string \<times> dir_entry) list option" where
  "single_record_dir = Some [(''m.json'', manifest_of [IdStr ''7''])]"

definition single_record_run :: "state \<times> unit result" where
  "single_record_run =
     crawl_comments_and_qa (env_comments [comment_a]) (cfg_pages 1) single_record_dir st_fresh"

section \<open>Fetchers: what a failed request gives\<close>

text \<open>
  Counterexample to C5 as stated: with the service unreachable, the fetcher of the
  question and answer spider returns normally, with the value \<open>None\<close>; it does not raise.
\<close>

theorem qa_fetcher_returns_none:
  "snd (qa_send_request env_down st_fresh ''u'') = Return None"
  by (simp add: qa_send_request_def env_down_def st_fresh_def)

text \<open>
  C5, amended. When the one request of a fetcher fails (no connection, or a status from
  400 to 599), the comment fetcher raises the transport error to its caller, and the
  question and answer fetcher returns \<open>None\<close> to its caller; either has made exactly one
  request, so there is no retry.
\<close>

theorem fetchers_on_failure:
  assumes "failed (http_get ev (length (trace st)) url)"
  shows "com_send_request ev st url = (log_event (Request url) st, Raise RequestException)
    \<and> qa_send_request ev st url = (log_event (Request url) st, Return None)
    \<and> new_events st (fst (com_send_request ev st url)) = [Request url]
    \<and> new_events st (fst (qa_send_request ev st url)) = [Request url]"
  using assms
  by (auto simp: com_send_request_def qa_send_request_def new_events_def log_event_def Let_def
      split: http_outcome.splits)

theorem fetchers_on_failure_witness:
  "failed (http_get env_down (length (trace st_fresh)) ''u'')
   \<and> com_send_request env_down st_fresh ''u''
       = (log_event (Request ''u'') st_fresh, Raise RequestException)
   \<and> qa_send_request env_down st_fresh ''u'' = (log_event (Request ''u'') st_fresh, Return None)
   \<and> new_events st_fresh (fst (com_send_request env_down st_fresh ''u'')) = [Request ''u'']
   \<and> new_events st_fresh (fst (qa_send_request env_down st_fresh ''u'')) = [Request ''u'']"
proof -
  have h: "failed (http_get env_down (length (trace st_fresh)) ''u'')"
    by (simp add: env_down_def)
  show ?thesis
    by (rule conjI [OF h fetchers_on_failure [OF h]])
qed

section \<open>Parsers\<close>

text \<open>
  C6 on the code. The payload lists a question without \<open>answerList\<close> and then a question
  with one answer. \<open>qa['answerList']\<close> raises a \<open>KeyError\<close> inside the \<open>try\<close> that
  encloses both loops, so the second question is never reached and the page parses to no
  record at all; parsed alone, the second question gives its record.
\<close>

theorem parse_qa_drops_later_questions:
  "parse_qa_json (JObj [(''questionList'', JArr [question_no_answers, question_one_answer])])
     = Return []
   \<and> parse_qa_json (JObj [(''questionList'', JArr [question_one_answer])])
     = Return [[JInt 2, JStr [], JStr [], JStr [], JInt 3, JStr [], JStr [], JStr []]]"
  by (simp add: parse_qa_json_def question_no_answers_def question_one_answer_def py_get_def
      py_iter_def py_item_def rbind_def question_fields_def parse_answer_def)

text \<open>
  What the parsers do meet: a comment record with absent fields gets the empty string for
  each, a page of comment records is parsed record by record whichever fields are absent,
  and a container that is absent or empty gives no row and no error, for both parsers.
\<close>

lemma comment_without_fields:
  "parse_comment pid (JObj [])
     = Return [JStr [], JStr [], JStr [], JStr [], JStr [], JStr [], json_of_id pid, JStr []]"
  by (simp add: parse_comment_def py_get_def rbind_def py_replace_def replace_newlines_def)

lemma parse_comment_tolerant:
  assumes "map_of kvs ''content'' = None \<or> (\<exists>s. map_of kvs ''content'' = Some (JStr s))"
  shows "\<exists>r. parse_comment pid (JObj kvs) = Return r"
  using assms
  by (auto simp: parse_comment_def py_get_def rbind_def py_replace_def split: option.splits)

lemma comments_loop_tolerant:
  assumes "\<forall>c \<in> set cs. \<exists>kvs. c = JObj kvs \<and>
             (map_of kvs ''content'' = None \<or> (\<exists>s. map_of kvs ''content'' = Some (JStr s)))"
  shows "\<exists>rows. comments_loop pid cs acc = Return (acc @ rows) \<and> length rows = length cs"
  using assms
proof (induction cs arbitrary: acc)
  case Nil
  then show ?case by simp
next
  case (Cons c cs)
  then obtain kvs where c: "c = JObj kvs"
    and k: "map_of kvs ''content'' = None \<or> (\<exists>s. map_of kvs ''content'' = Some (JStr s))"
    by auto
  obtain r where r: "parse_comment pid c = Return r"
    using parse_comment_tolerant [OF k] c by blast
  from Cons.prems have "\<forall>c \<in> set cs. \<exists>kvs. c = JObj kvs \<and>
             (map_of kvs ''content'' = None \<or> (\<exists>s. map_of kvs ''content'' = Some (JStr s)))"
    by simp
  from Cons.IH [OF this, of "acc @ [r]"] obtain rows
    where "comments_loop pid cs (acc @ [r]) = Return (acc @ [r] @ rows)" and "length rows = length cs"
    by auto
  then have "comments_loop pid (c # cs) acc = Return (acc @ (r # rows)) \<and> length (r # rows) = length (c # cs)"
    by (simp add: r rbind_def)
  then show ?case by blast
qed

lemma no_container_no_rows:
  assumes "map_of kvs key = None \<or> map_of kvs key = Some (JArr [])"
  shows "key = ''comments'' \<Longrightarrow> parse_comments_json pid (JObj kvs) = Return []"
    and "key = ''questionList'' \<Longrightarrow> parse_qa_json (JObj kvs) = Return []"
  using assms
  by (auto simp: parse_comments_json_def parse_qa_json_def py_get_def py_iter_def rbind_def)

lemma parse_answer_object:
  "is_object a \<Longrightarrow>
   parse_answer qid c p t a
     = Return [qid, c, p, t, field a ''id'', field a ''content'', field a ''created'',
               field a ''location'']"
  by (cases a) (auto simp: parse_answer_def py_get_def rbind_def field_def split: option.splits)

lemma answers_loop_objects:
  "list_all is_object xs \<Longrightarrow>
   answers_loop qid c p t xs acc
     = (acc @ map (\<lambda>a. [qid, c, p, t, field a ''id'', field a ''content'', field a ''created'',
                         field a ''location'']) xs, None)"
  by (induction xs arbitrary: acc) (auto simp: parse_answer_object)

lemma question_fields_object:
  "is_object q \<Longrightarrow>
   question_fields q
     = Return (field q ''id'', field q ''content'', field q ''productId'', field q ''created'')"
  by (cases q) (auto simp: question_fields_def py_get_def rbind_def field_def split: option.splits)

lemma questions_loop_carrying:
  "list_all carries_answers qs \<Longrightarrow>
   questions_loop qs acc = (acc @ concat (map expand_question qs), None)"
proof (induction qs arbitrary: acc)
  case Nil
  then show ?case by simp
next
  case (Cons q qs)
  from Cons.prems have q: "carries_answers q" and qs: "list_all carries_answers qs"
    by simp_all
  from q obtain al xs where al: "py_item q ''answerList'' = Return al"
    and xs: "py_iter al = Return xs" and obj: "list_all is_object xs" and qo: "is_object q"
    by (auto simp: carries_answers_def split: result.splits)
  have ex: "expand_question q
      = map (\<lambda>a. [field q ''id'', field q ''content'', field q ''productId'', field q ''created'',
                  field a ''id'', field a ''content'', field a ''created'', field a ''location'']) xs"
    by (simp add: expand_question_def answers_of_def al xs qa_record_def)
  show ?case
    by (simp add: question_fields_object [OF qo] al xs answers_loop_objects [OF obj]
        Cons.IH [OF qs] ex)
qed

text \<open>
  The expansion on well-formed pages. For a payload whose questions each carry an answer
  list, the parsed page is the questions' expansions one after the other: a question
  with N answers gives N records, one per answer, each starting with the question's id,
  content, product id and creation time; a question with no answer gives none.
\<close>

lemma qa_expansion:
  assumes "py_get payload ''questionList'' (JArr []) = Return ql"
    and "py_iter ql = Return qs"
    and "list_all carries_answers qs"
  shows "parse_qa_json payload = Return (concat (map expand_question qs))
    \<and> (\<forall>q \<in> set qs. length (expand_question q) = length (answers_of q))
    \<and> (\<forall>q \<in> set qs. \<forall>r \<in> set (expand_question q).
           take 4 r = [field q ''id'', field q ''content'', field q ''productId'',
                       field q ''created''])
    \<and> (\<forall>q \<in> set qs. answers_of q = [] \<longrightarrow> expand_question q = [])"
  using assms
  by (auto simp: parse_qa_json_def rbind_def questions_loop_carrying expand_question_def
      qa_record_def)

lemma qa_expansion_witness:
  "py_get payload_two_questions ''questionList'' (JArr [])
     = Return (JArr [question_zero_answers, question_one_answer])
   \<and> py_iter (JArr [question_zero_answers, question_one_answer])
     = Return [question_zero_answers, question_one_answer]
   \<and> list_all carries_answers [question_zero_answers, question_one_answer]
   \<and> parse_qa_json payload_two_questions
     = Return [[JInt 2, JStr [], JStr [], JStr [], JInt 3, JStr [], JStr [], JStr []]]
   \<and> length (expand_question question_one_answer) = 1
   \<and> answers_of question_zero_answers = []
   \<and> expand_question question_zero_answers = []"
proof -
  have h1: "py_get payload_two_questions ''questionList'' (JArr [])
     = Return (JArr [question_zero_answers, question_one_answer])"
    by (simp add: payload_two_questions_def py_get_def)
  have h2: "py_iter (JArr [question_zero_answers, question_one_answer])
     = Return [question_zero_answers, question_one_answer]"
    by (simp add: py_iter_def)
  have h3: "list_all carries_answers [question_zero_answers, question_one_answer]"
    by (simp add: carries_answers_def question_zero_answers_def question_one_answer_def
        py_item_def py_iter_def)
  have e1: "expand_question question_one_answer
     = [[JInt 2, JStr [], JStr [], JStr [], JInt 3, JStr [], JStr [], JStr []]]"
    by (simp add: expand_question_def answers_of_def question_one_answer_def py_item_def
        py_iter_def qa_record_def field_def)
  have e0: "answers_of question_zero_answers = []"
    by (simp add: answers_of_def question_zero_answers_def py_item_def py_iter_def)
  from qa_expansion [OF h1 h2 h3] e1 e0 h1 h2 h3 show ?thesis
    by simp
qed

text \<open>
  C7 on the code. The expansion does not hold for every payload. The second question of
  this page carries one answer, so it should give one record, and parsed in a page of
  its own it does. Here it follows a question without \<open>answerList\<close>: the \<open>KeyError\<close> of
  \<open>qa['answerList']\<close> ends both loops of \<open>parse_qa\<close>, and the question with its answer
  gives no record.
\<close>

theorem answered_question_gives_no_record:
  "carries_answers question_one_answer
   \<and> length (answers_of question_one_answer) = 1
   \<and> length (expand_question question_one_answer) = 1
   \<and> \<not> carries_answers question_no_answers
   \<and> questions_loop [question_no_answers, question_one_answer] [] = ([], Some KeyError)
   \<and> parse_qa_json (JObj [(''questionList'', JArr [question_no_answers, question_one_answer])])
     = Return []"
  by (simp add: carries_answers_def answers_of_def expand_question_def parse_qa_json_def
      question_no_answers_def question_one_answer_def py_get_def py_iter_def py_item_def
      rbind_def question_fields_def parse_answer_def)

section \<open>Events of a page task, of the pool and of a crawl\<close>

lemma com_send_request_trace:
  "trace (fst (com_send_request ev st url)) = trace st @ [Request url]"
  "output_dir (fst (com_send_request ev st url)) = output_dir st"
  "checkpoint (fst (com_send_request ev st url)) = checkpoint st"
  by (auto simp: com_send_request_def log_event_def Let_def split: http_outcome.splits)

lemma qa_send_request_trace:
  "trace (fst (qa_send_request ev st url)) = trace st @ [Request url]"
  "output_dir (fst (qa_send_request ev st url)) = output_dir st"
  "checkpoint (fst (qa_send_request ev st url)) = checkpoint st"
  by (auto simp: qa_send_request_def log_event_def Let_def split: http_outcome.splits)

lemma com_crawl_page_state:
  "fst (fst (com_crawl_page ev cfg pid s page))
     = fst (com_send_request ev (log_event (PageTask Com pid page) (fst s)) (com_url cfg pid page))"
  by (auto simp: com_crawl_page_def get_comments_def split: prod.splits result.splits)

lemma qa_crawl_page_state:
  "fst (fst (qa_crawl_page ev pid s page))
     = fst (qa_send_request ev (log_event (PageTask QA pid page) (fst s)) (qa_url pid page))"
  by (auto simp: qa_crawl_page_def get_qa_def split: prod.splits result.splits option.splits)

lemma com_crawl_page_trace:
  "trace (fst (fst (com_crawl_page ev cfg pid s page)))
     = trace (fst s) @ [PageTask Com pid page, Request (com_url cfg pid page)]"
  "output_dir (fst (fst (com_crawl_page ev cfg pid s page))) = output_dir (fst s)"
  "checkpoint (fst (fst (com_crawl_page ev cfg pid s page))) = checkpoint (fst s)"
  by (simp_all add: com_crawl_page_state com_send_request_trace log_event_def)

lemma qa_crawl_page_trace:
  "trace (fst (fst (qa_crawl_page ev pid s page)))
     = trace (fst s) @ [PageTask QA pid page, Request (qa_url pid page)]"
  "output_dir (fst (fst (qa_crawl_page ev pid s page))) = output_dir (fst s)"
  "checkpoint (fst (fst (qa_crawl_page ev pid s page))) = checkpoint (fst s)"
  by (simp_all add: qa_crawl_page_state qa_send_request_trace log_event_def)

lemma mset_remove_nth:
  "i < length xs \<Longrightarrow> add_mset (xs ! i) (mset (remove_nth i xs)) = mset xs"
proof -
  assume i: "i < length xs"
  then have "xs = take i xs @ xs ! i # drop (Suc i) xs"
    by (rule id_take_nth_drop)
  then have "mset xs = mset (take i xs @ xs ! i # drop (Suc i) xs)"
    by simp
  then show ?thesis
    by (simp add: remove_nth_def)
qed

text \<open>What a run of the pool adds to the trace, for tasks that add their page event and
  one request, and touch nothing but the trace.\<close>

lemma run_pool_events:
  assumes "\<And>s page. \<exists>u. trace (fst (task s page)) = trace (fst s) @ [PageTask k pid page, Request u]"
    and "\<And>s page. output_dir (fst (task s page)) = output_dir (fst s)"
    and "\<And>s page. checkpoint (fst (task s page)) = checkpoint (fst s)"
  shows "\<exists>evs. trace (fst (run_pool ch clk task s pending)) = trace (fst s) @ evs
           \<and> mset (pages_of k pid evs) = mset pending
           \<and> (\<forall>e \<in> set evs. (\<exists>page. e = PageTask k pid page) \<or> is_request e)
           \<and> output_dir (fst (run_pool ch clk task s pending)) = output_dir (fst s)
           \<and> checkpoint (fst (run_pool ch clk task s pending)) = checkpoint (fst s)"
  using assms
proof (induction ch clk task s pending rule: run_pool.induct)
  case (1 ch clk task s pending)
  note step = "1.prems"(1) and out = "1.prems"(2) and cp = "1.prems"(3)
  show ?case
  proof (cases "pending = []")
    case True
    then show ?thesis
      by (simp add: run_pool.simps)
  next
    case False
    define i where "i = ch (clk s) mod length pending"
    have i: "i < length pending"
      using False by (simp add: i_def)
    define s' where "s' = task s (pending ! i)"
    obtain u where u: "trace (fst s') = trace (fst s) @ [PageTask k pid (pending ! i), Request u]"
      using step [of s "pending ! i"] unfolding s'_def by blast
    from "1.IH" [OF False i_def step out cp]
    obtain evs where evs: "trace (fst (run_pool ch clk task s' (remove_nth i pending))) = trace (fst s') @ evs"
      and pg: "mset (pages_of k pid evs) = mset (remove_nth i pending)"
      and sh: "\<forall>e \<in> set evs. (\<exists>page. e = PageTask k pid page) \<or> is_request e"
      and o: "output_dir (fst (run_pool ch clk task s' (remove_nth i pending))) = output_dir (fst s')"
      and c: "checkpoint (fst (run_pool ch clk task s' (remove_nth i pending))) = checkpoint (fst s')"
      unfolding s'_def by blast
    have unfold: "run_pool ch clk task s pending = run_pool ch clk task s' (remove_nth i pending)"
      using False by (subst run_pool.simps) (simp add: i_def s'_def Let_def)
    let ?evs = "[PageTask k pid (pending ! i), Request u] @ evs"
    have "trace (fst (run_pool ch clk task s pending)) = trace (fst s) @ ?evs"
      by (simp add: unfold evs u)
    moreover have "mset (pages_of k pid ?evs) = mset pending"
      using pg mset_remove_nth [OF i] by simp
    moreover have "\<forall>e \<in> set ?evs. (\<exists>page. e = PageTask k pid page) \<or> is_request e"
      using sh by auto
    moreover have "output_dir (fst (run_pool ch clk task s pending)) = output_dir (fst s)"
      using out [of s "pending ! i"] by (simp add: unfold o s'_def [symmetric])
    moreover have "checkpoint (fst (run_pool ch clk task s pending)) = checkpoint (fst s)"
      using cp [of s "pending ! i"] by (simp add: unfold c s'_def [symmetric])
    ultimately show ?thesis
      by blast
  qed
qed

lemma pages_of_only_requests:
  "\<forall>e \<in> set evs. (\<exists>page. e = PageTask k pid page) \<or> is_request e \<Longrightarrow> settled evs = []"
  by (induction evs rule: settled.induct) auto

lemma collect_events:
  "\<exists>evs. trace (fst (collect k ev cfg st pid)) = trace st @ StartCrawl k pid # evs
         \<and> mset (pages_of k pid evs) = mset (pages k cfg)
         \<and> (\<forall>e \<in> set evs. (\<exists>page. e = PageTask k pid page) \<or> is_request e)
         \<and> output_dir (fst (collect k ev cfg st pid)) = output_dir st
         \<and> checkpoint (fst (collect k ev cfg st pid)) = checkpoint st"
proof (cases k)
  case Com
  show ?thesis
    using run_pool_events [where task = "\<lambda>s page. fst (com_crawl_page ev cfg pid s page)"
        and k = Com and pid = pid and ch = "pick ev" and clk = clock
        and s = "(log_event (StartCrawl Com pid) st, [])" and pending = "py_range (com_pages cfg)"]
    by (simp add: Com com_crawl_page_trace collect_def com_collect_def pages_def log_event_def)
next
  case QA
  show ?thesis
    using run_pool_events [where task = "\<lambda>s page. fst (qa_crawl_page ev pid s page)"
        and k = QA and pid = pid and ch = "pick ev" and clk = clock
        and s = "(log_event (StartCrawl QA pid) st, [])" and pending = "py_range1 (qa_pages cfg)"]
    by (simp add: QA qa_crawl_page_trace collect_def qa_collect_def pages_def log_event_def)
qed

lemma start_crawling_save:
  "start_crawling k ev cfg st pid
     = save_frame k ev (fst (collect k ev cfg st pid)) pid (snd (collect k ev cfg st pid))"
  by (cases k)
     (simp_all add: start_crawling_def collect_def com_start_crawling_def qa_start_crawling_def
       save_comments_def save_data_def Let_def)

lemma save_frame_trace:
  "\<exists>r. trace (save_frame k ev st pid df) = trace st @ [Persist k pid r]
       \<and> (r = Skipped \<longleftrightarrow> length df \<le> 1)
       \<and> (r \<noteq> Persisted \<longrightarrow> output_dir (save_frame k ev st pid df) = output_dir st)
       \<and> (r = Persisted \<longrightarrow> output_dir (save_frame k ev st pid df)
                               = write_file (artifact_name k pid) (output_dir st))"
  by (auto simp: save_frame_def log_event_def)

lemma save_frame_checkpoint:
  "checkpoint (save_frame k ev st pid df) = checkpoint st"
  by (auto simp: save_frame_def log_event_def)

lemma save_frame_output_grows:
  "set (output_dir st) \<subseteq> set (output_dir (save_frame k ev st pid df))"
  by (auto simp: save_frame_def log_event_def write_file_def)

text \<open>The events of one call of \<open>start_crawling\<close>.\<close>

lemma start_crawling_events:
  "\<exists>evs r. new_events st (start_crawling k ev cfg st pid) = StartCrawl k pid # evs @ [Persist k pid r]
         \<and> trace (start_crawling k ev cfg st pid) = trace st @ StartCrawl k pid # evs @ [Persist k pid r]
         \<and> mset (pages_of k pid evs) = mset (pages k cfg)
         \<and> (\<forall>e \<in> set evs. (\<exists>page. e = PageTask k pid page) \<or> is_request e)
         \<and> (r = Skipped \<longleftrightarrow> length (snd (collect k ev cfg st pid)) \<le> 1)
         \<and> (r \<noteq> Persisted \<longrightarrow> output_dir (start_crawling k ev cfg st pid) = output_dir st)
         \<and> (r = Persisted \<longrightarrow> output_dir (start_crawling k ev cfg st pid)
                               = write_file (artifact_name k pid) (output_dir st))"
proof -
  obtain evs where evs: "trace (fst (collect k ev cfg st pid)) = trace st @ StartCrawl k pid # evs"
    and pg: "mset (pages_of k pid evs) = mset (pages k cfg)"
    and sh: "\<forall>e \<in> set evs. (\<exists>page. e = PageTask k pid page) \<or> is_request e"
    and o: "output_dir (fst (collect k ev cfg st pid)) = output_dir st"
    using collect_events [of k ev cfg st pid] by blast
  obtain r where r: "trace (start_crawling k ev cfg st pid)
        = trace (fst (collect k ev cfg st pid)) @ [Persist k pid r]"
    and sk: "r = Skipped \<longleftrightarrow> length (snd (collect k ev cfg st pid)) \<le> 1"
    and np: "r \<noteq> Persisted \<longrightarrow> output_dir (start_crawling k ev cfg st pid)
               = output_dir (fst (collect k ev cfg st pid))"
    and p: "r = Persisted \<longrightarrow> output_dir (start_crawling k ev cfg st pid)
               = write_file (artifact_name k pid) (output_dir (fst (collect k ev cfg st pid)))"
    using save_frame_trace [of k ev "fst (collect k ev cfg st pid)" pid "snd (collect k ev cfg st pid)"]
    unfolding start_crawling_save by blast
  have tr: "trace (start_crawling k ev cfg st pid) = trace st @ StartCrawl k pid # evs @ [Persist k pid r]"
    by (simp add: r evs)
  then have "new_events st (start_crawling k ev cfg st pid) = StartCrawl k pid # evs @ [Persist k pid r]"
    by (simp add: new_events_def)
  with tr pg sh sk np p o show ?thesis
    by auto
qed

lemma start_crawling_kind:
  "start_crawling Com = com_start_crawling" "start_crawling QA = qa_start_crawling"
  "pages Com cfg = [0..com_pages cfg - 1]" "pages QA cfg = [1..qa_pages cfg]"
  by (simp_all add: start_crawling_def pages_def py_range_def py_range1_def)

section \<open>Page tasks of one crawl\<close>

text \<open>
  C4. A crawl of a comment target runs one page task for each page index from 0 to
  \<open>pages - 1\<close>, a crawl of a question and answer target one for each page index from 1 to
  \<open>pages\<close>: the page tasks between the start of the crawl and the persister are a
  permutation of that range, so there are exactly \<open>pages\<close> of them, and the persister's
  outcome comes after all of them and nowhere before.
\<close>

theorem page_tasks_dispatched:
  "(\<exists>evs r. new_events st (com_start_crawling ev cfg st pid)
               = StartCrawl Com pid # evs @ [Persist Com pid r]
           \<and> mset (pages_of Com pid evs) = mset [0..com_pages cfg - 1]
           \<and> length (pages_of Com pid evs) = nat (com_pages cfg)
           \<and> settled evs = [])
   \<and> (\<exists>evs r. new_events st (qa_start_crawling ev cfg st pid)
               = StartCrawl QA pid # evs @ [Persist QA pid r]
           \<and> mset (pages_of QA pid evs) = mset [1..qa_pages cfg]
           \<and> length (pages_of QA pid evs) = nat (qa_pages cfg)
           \<and> settled evs = [])"
proof
  obtain evs r where e: "new_events st (start_crawling Com ev cfg st pid)
        = StartCrawl Com pid # evs @ [Persist Com pid r]"
    and m: "mset (pages_of Com pid evs) = mset (pages Com cfg)"
    and s: "\<forall>e \<in> set evs. (\<exists>page. e = PageTask Com pid page) \<or> is_request e"
    using start_crawling_events [of st Com ev cfg pid] by blast
  from m have "size (mset (pages_of Com pid evs)) = size (mset (pages Com cfg))"
    by simp
  then have "length (pages_of Com pid evs) = nat (com_pages cfg)"
    by (simp add: start_crawling_kind)
  with e m pages_of_only_requests [OF s]
  show "\<exists>evs r. new_events st (com_start_crawling ev cfg st pid)
               = StartCrawl Com pid # evs @ [Persist Com pid r]
           \<and> mset (pages_of Com pid evs) = mset [0..com_pages cfg - 1]
           \<and> length (pages_of Com pid evs) = nat (com_pages cfg)
           \<and> settled evs = []"
    unfolding start_crawling_kind by blast
next
  obtain evs r where e: "new_events st (start_crawling QA ev cfg st pid)
        = StartCrawl QA pid # evs @ [Persist QA pid r]"
    and m: "mset (pages_of QA pid evs) = mset (pages QA cfg)"
    and s: "\<forall>e \<in> set evs. (\<exists>page. e = PageTask QA pid page) \<or> is_request e"
    using start_crawling_events [of st QA ev cfg pid] by blast
  from m have "size (mset (pages_of QA pid evs)) = size (mset (pages QA cfg))"
    by simp
  then have "length (pages_of QA pid evs) = nat (qa_pages cfg)"
    by (simp add: start_crawling_kind)
  with e m pages_of_only_requests [OF s]
  show "\<exists>evs r. new_events st (qa_start_crawling ev cfg st pid)
               = StartCrawl QA pid # evs @ [Persist QA pid r]
           \<and> mset (pages_of QA pid evs) = mset [1..qa_pages cfg]
           \<and> length (pages_of QA pid evs) = nat (qa_pages cfg)
           \<and> settled evs = []"
    unfolding start_crawling_kind by blast
qed

theorem page_tasks_dispatched_witness:
  "(\<exists>evs r. new_events st_fresh (com_start_crawling env_down (cfg_pages 2) st_fresh (IdStr ''1''))
               = StartCrawl Com (IdStr ''1'') # evs @ [Persist Com (IdStr ''1'') r]
           \<and> mset (pages_of Com (IdStr ''1'') evs) = mset [0, 1]
           \<and> length (pages_of Com (IdStr ''1'') evs) = 2
           \<and> settled evs = [])
   \<and> (\<exists>evs r. new_events st_fresh (qa_start_crawling env_down (cfg_pages 2) st_fresh (IdStr ''1''))
               = StartCrawl QA (IdStr ''1'') # evs @ [Persist QA (IdStr ''1'') r]
           \<and> mset (pages_of QA (IdStr ''1'') evs) = mset [1, 2]
           \<and> length (pages_of QA (IdStr ''1'') evs) = 2
           \<and> settled evs = [])"
proof -
  have u: "[0..1::int] = [0, 1]" "[1..2::int] = [1, 2]"
    by code_simp+
  show ?thesis
    using page_tasks_dispatched [of st_fresh env_down "cfg_pages 2" "IdStr ''1''"]
    by (simp add: cfg_pages_def u)
qed

section \<open>The skip guard of the persisters\<close>

lemma process_targets_single:
  "\<not> id_in pid idx \<Longrightarrow>
   process_targets ev cfg idx st [[(''sku'', pid)]] = (com_start_crawling ev cfg st pid, Return ())"
  by simp

lemma crawl_starts:
  "\<exists>evs. new_events st (com_start_crawling ev cfg st pid) = StartCrawl Com pid # evs"
  using start_crawling_events [of st Com ev cfg pid] unfolding start_crawling_kind by auto

text \<open>The skip guard of the persisters: no more than one row, no file.\<close>

lemma at_most_one_row_skipped:
  assumes "length (snd (collect k ev cfg st pid)) \<le> 1"
  shows "last (trace (start_crawling k ev cfg st pid)) = Persist k pid Skipped"
    and "output_dir (start_crawling k ev cfg st pid) = output_dir st"
proof -
  obtain evs r where tr: "trace (start_crawling k ev cfg st pid)
        = trace st @ StartCrawl k pid # evs @ [Persist k pid r]"
    and sk: "r = Skipped \<longleftrightarrow> length (snd (collect k ev cfg st pid)) \<le> 1"
    and np: "r \<noteq> Persisted \<longrightarrow> output_dir (start_crawling k ev cfg st pid) = output_dir st"
    using start_crawling_events [of st k ev cfg pid] by blast
  from sk assms have r: "r = Skipped" by simp
  show "last (trace (start_crawling k ev cfg st pid)) = Persist k pid Skipped"
    by (simp add: tr r)
  show "output_dir (start_crawling k ev cfg st pid) = output_dir st"
    using np r by simp
qed

text \<open>
  C8. When the rows collected for a target are none, the persister (of either spider)
  skips: no file is written, the output directory is as before, and so is the index of
  completed targets rebuilt from it. A target that was not in the index is still not in
  it, and a later pass over a manifest listing it crawls it again.
\<close>

theorem empty_accumulation_skipped:
  assumes "snd (collect k ev cfg st pid) = []"
    and "completed_index (output_dir st) = Return idx"
    and "\<not> id_in pid idx"
  shows "last (trace (start_crawling k ev cfg st pid)) = Persist k pid Skipped
    \<and> output_dir (start_crawling k ev cfg st pid) = output_dir st
    \<and> completed_index (output_dir (start_crawling k ev cfg st pid)) = Return idx
    \<and> \<not> id_in pid idx
    \<and> (\<exists>evs. new_events (start_crawling k ev cfg st pid)
                (fst (process_targets ev' cfg' idx (start_crawling k ev cfg st pid) [[(''sku'', pid)]]))
              = StartCrawl Com pid # evs)"
proof -
  have le: "length (snd (collect k ev cfg st pid)) \<le> 1"
    using assms(1) by simp
  show ?thesis
    using at_most_one_row_skipped [OF le] assms(2,3)
      crawl_starts [of "start_crawling k ev cfg st pid" ev' cfg' pid]
    by (simp add: process_targets_single)
qed

theorem empty_accumulation_skipped_witness:
  "snd (collect Com env_down (cfg_pages 1) st_fresh (IdStr ''1'')) = []
   \<and> completed_index (output_dir st_fresh) = Return []
   \<and> \<not> id_in (IdStr ''1'') []
   \<and> last (trace (start_crawling Com env_down (cfg_pages 1) st_fresh (IdStr ''1'')))
       = Persist Com (IdStr ''1'') Skipped
   \<and> output_dir (start_crawling Com env_down (cfg_pages 1) st_fresh (IdStr ''1'')) = []"
proof -
  have h1: "snd (collect Com env_down (cfg_pages 1) st_fresh (IdStr ''1'')) = []"
    by code_simp
  have h2: "completed_index (output_dir st_fresh) = Return []"
    by (simp add: st_fresh_def)
  have h3: "\<not> id_in (IdStr ''1'') []"
    by simp
  from empty_accumulation_skipped [OF h1 h2 h3] h1 h2 h3 show ?thesis
    by (simp add: st_fresh_def)
qed

text \<open>
  Counterexample to C9 as stated. The manifest \<open>m.json\<close> lists one target whose pages
  hold one comment in all. The first run crawls it, the persister skips, no file is
  written, and the manifest is recorded in the checkpoint; the next run filters the
  manifest out and does nothing at all, so the target is not fetched again.
\<close>

theorem single_record_not_refetched:
  "snd single_record_run = Return ()
   \<and> Persist Com (IdStr ''7'') Skipped \<in> set (trace (fst single_record_run))
   \<and> output_dir (fst single_record_run) = []
   \<and> new_events (fst single_record_run)
        (fst (crawl_comments_and_qa (env_comments [comment_a]) (cfg_pages 1) single_record_dir
               (fst single_record_run))) = []"
  by code_simp

text \<open>
  C9, amended. When exactly one row has been collected for a target, the persister (of
  either spider) skips as it does for none: no file is written and the index of
  completed targets does not change, so a target that was not in it is crawled again by
  a later pass over a manifest that lists it.
\<close>

theorem single_record_skipped:
  assumes "length (snd (collect k ev cfg st pid)) = 1"
    and "completed_index (output_dir st) = Return idx"
    and "\<not> id_in pid idx"
  shows "last (trace (start_crawling k ev cfg st pid)) = Persist k pid Skipped
    \<and> output_dir (start_crawling k ev cfg st pid) = output_dir st
    \<and> completed_index (output_dir (start_crawling k ev cfg st pid)) = Return idx
    \<and> (\<exists>evs. new_events (start_crawling k ev cfg st pid)
                (fst (process_targets ev' cfg' idx (start_crawling k ev cfg st pid) [[(''sku'', pid)]]))
              = StartCrawl Com pid # evs)"
proof -
  have le: "length (snd (collect k ev cfg st pid)) \<le> 1"
    using assms(1) by simp
  show ?thesis
    using at_most_one_row_skipped [OF le] assms(2,3)
      crawl_starts [of "start_crawling k ev cfg st pid" ev' cfg' pid]
    by (simp add: process_targets_single)
qed

theorem single_record_skipped_witness:
  "length (snd (collect Com (env_comments [comment_a]) (cfg_pages 1) st_fresh (IdStr ''7''))) = 1
   \<and> completed_index (output_dir st_fresh) = Return []
   \<and> \<not> id_in (IdStr ''7'') []
   \<and> last (trace (start_crawling Com (env_comments [comment_a]) (cfg_pages 1) st_fresh (IdStr ''7'')))
       = Persist Com (IdStr ''7'') Skipped
   \<and> output_dir (start_crawling Com (env_comments [comment_a]) (cfg_pages 1) st_fresh (IdStr ''7'')) = []"
proof -
  have h1: "length (snd (collect Com (env_comments [comment_a]) (cfg_pages 1) st_fresh (IdStr ''7''))) = 1"
    by code_simp
  have h2: "completed_index (output_dir st_fresh) = Return []"
    by (simp add: st_fresh_def)
  have h3: "\<not> id_in (IdStr ''7'') []"
    by simp
  from single_record_skipped [OF h1 h2 h3] h1 h2 h3 show ?thesis
    by (simp add: st_fresh_def)
qed

section \<open>Events of a pass over one manifest\<close>

lemma start_crawling_checkpoint:
  "checkpoint (start_crawling k ev cfg st pid) = checkpoint st"
  using collect_events [of k ev cfg st pid]
  by (auto simp: start_crawling_save save_frame_checkpoint)

lemma start_crawling_output_grows:
  "set (output_dir st) \<subseteq> set (output_dir (start_crawling k ev cfg st pid))"
  using collect_events [of k ev cfg st pid]
    save_frame_output_grows [of "fst (collect k ev cfg st pid)" k ev pid "snd (collect k ev cfg st pid)"]
  by (auto simp: start_crawling_save)

lemma settled_append: "settled (xs @ ys) = settled xs @ settled ys"
  by (induction xs rule: settled.induct) auto

lemma request_is_nothing_else:
  "is_request e \<Longrightarrow> \<not> is_checkpoint e \<and> \<not> crawls T e"
  by (cases e) auto

text \<open>One crawl, as the orchestrator sees it.\<close>

lemma com_start_crawling_run:
  "\<exists>evs. trace (com_start_crawling ev cfg st pid) = trace st @ evs
        \<and> (\<forall>e \<in> set evs. \<not> is_checkpoint e)
        \<and> (\<forall>T. T \<noteq> pid \<longrightarrow> (\<forall>e \<in> set evs. \<not> crawls T e))
        \<and> settled evs = [pid]"
proof -
  obtain evs r where tr: "trace (start_crawling Com ev cfg st pid)
        = trace st @ StartCrawl Com pid # evs @ [Persist Com pid r]"
    and sh: "\<forall>e \<in> set evs. (\<exists>page. e = PageTask Com pid page) \<or> is_request e"
    using start_crawling_events [of st Com ev cfg pid] by blast
  let ?evs = "StartCrawl Com pid # evs @ [Persist Com pid r]"
  have "\<forall>e \<in> set ?evs. \<not> is_checkpoint e"
    using sh request_is_nothing_else by fastforce
  moreover have "\<forall>T. T \<noteq> pid \<longrightarrow> (\<forall>e \<in> set ?evs. \<not> crawls T e)"
    using sh request_is_nothing_else by fastforce
  moreover have "settled ?evs = [pid]"
    using pages_of_only_requests [OF sh] by (simp add: settled_append)
  ultimately show ?thesis
    using tr unfolding start_crawling_kind by blast
qed

lemma id_in_differs: "id_in T idx \<Longrightarrow> \<not> id_in pid idx \<Longrightarrow> T \<noteq> pid"
  by auto

text \<open>The loop over the products of one manifest.\<close>

lemma process_targets_run:
  "\<exists>evs. trace (fst (process_targets ev cfg idx st infos)) = trace st @ evs
        \<and> (\<forall>e \<in> set evs. \<not> is_checkpoint e)
        \<and> (\<forall>T. id_in T idx \<longrightarrow> (\<forall>e \<in> set evs. \<not> crawls T e))
        \<and> (snd (process_targets ev cfg idx st infos) = Return ()
             \<longrightarrow> map Some (settled evs) = map (\<lambda>info. map_of info ''sku'') infos)"
proof (induction infos arbitrary: st)
  case Nil
  then show ?case by simp
next
  case (Cons info infos)
  show ?case
  proof (cases "map_of info ''sku''")
    case None
    then show ?thesis by simp
  next
    case (Some pid)
    show ?thesis
    proof (cases "id_in pid idx")
      case True
      obtain evs where tr: "trace (fst (process_targets ev cfg idx (log_event (SkipTarget pid) st) infos))
            = trace (log_event (SkipTarget pid) st) @ evs"
        and c: "\<forall>e \<in> set evs. \<not> is_checkpoint e"
        and n: "\<forall>T. id_in T idx \<longrightarrow> (\<forall>e \<in> set evs. \<not> crawls T e)"
        and s: "snd (process_targets ev cfg idx (log_event (SkipTarget pid) st) infos) = Return ()
             \<longrightarrow> map Some (settled evs) = map (\<lambda>info. map_of info ''sku'') infos"
        using Cons.IH [of "log_event (SkipTarget pid) st"] by blast
      let ?evs = "SkipTarget pid # evs"
      have "trace (fst (process_targets ev cfg idx st (info # infos))) = trace st @ ?evs"
        using Some True tr by (simp add: log_event_def)
      moreover have "\<forall>e \<in> set ?evs. \<not> is_checkpoint e"
        using c by simp
      moreover have "\<forall>T. id_in T idx \<longrightarrow> (\<forall>e \<in> set ?evs. \<not> crawls T e)"
        using n by simp
      moreover have "snd (process_targets ev cfg idx st (info # infos)) = Return ()
             \<longrightarrow> map Some (settled ?evs) = map (\<lambda>info. map_of info ''sku'') (info # infos)"
        using Some True s by simp
      ultimately show ?thesis by blast
    next
      case False
      obtain evs0 where tr0: "trace (com_start_crawling ev cfg st pid) = trace st @ evs0"
        and c0: "\<forall>e \<in> set evs0. \<not> is_checkpoint e"
        and n0: "\<forall>T. T \<noteq> pid \<longrightarrow> (\<forall>e \<in> set evs0. \<not> crawls T e)"
        and s0: "settled evs0 = [pid]"
        using com_start_crawling_run [of ev cfg st pid] by blast
      obtain evs where tr: "trace (fst (process_targets ev cfg idx (com_start_crawling ev cfg st pid) infos))
            = trace (com_start_crawling ev cfg st pid) @ evs"
        and c: "\<forall>e \<in> set evs. \<not> is_checkpoint e"
        and n: "\<forall>T. id_in T idx \<longrightarrow> (\<forall>e \<in> set evs. \<not> crawls T e)"
        and s: "snd (process_targets ev cfg idx (com_start_crawling ev cfg st pid) infos) = Return ()
             \<longrightarrow> map Some (settled evs) = map (\<lambda>info. map_of info ''sku'') infos"
        using Cons.IH [of "com_start_crawling ev cfg st pid"] by blast
      let ?evs = "evs0 @ evs"
      have "trace (fst (process_targets ev cfg idx st (info # infos))) = trace st @ ?evs"
        using Some False tr tr0 by simp
      moreover have "\<forall>e \<in> set ?evs. \<not> is_checkpoint e"
        using c c0 by auto
      moreover have "\<forall>T. id_in T idx \<longrightarrow> (\<forall>e \<in> set ?evs. \<not> crawls T e)"
        using n n0 id_in_differs [OF _ False] by auto
      moreover have "snd (process_targets ev cfg idx st (info # infos)) = Return ()
             \<longrightarrow> map Some (settled ?evs) = map (\<lambda>info. map_of info ''sku'') (info # infos)"
        using Some False s s0 by (simp add: settled_append)
      ultimately show ?thesis by blast
    qed
  qed
qed

lemma process_targets_frame:
  "set (output_dir st) \<subseteq> set (output_dir (fst (process_targets ev cfg idx st infos)))
   \<and> checkpoint (fst (process_targets ev cfg idx st infos)) = checkpoint st"
proof (induction infos arbitrary: st)
  case Nil
  then show ?case by simp
next
  case (Cons info infos)
  show ?case
  proof (cases "map_of info ''sku''")
    case None
    then show ?thesis by simp
  next
    case (Some pid)
    show ?thesis
    proof (cases "id_in pid idx")
      case True
      then show ?thesis
        using Some Cons.IH [of "log_event (SkipTarget pid) st"] by (simp add: log_event_def)
    next
      case False
      then show ?thesis
        using Some Cons.IH [of "com_start_crawling ev cfg st pid"]
          start_crawling_output_grows [of st Com ev cfg pid]
          start_crawling_checkpoint [of Com ev cfg st pid]
        unfolding start_crawling_kind by auto
    qed
  qed
qed

section \<open>The index of completed targets\<close>

lemma split_on_absent: "sep \<notin> set s \<Longrightarrow> split_on sep s = [s]"
  by (induction s) auto

lemma split_on_first: "sep \<notin> set a \<Longrightarrow> split_on sep (a @ sep # b) = a # split_on sep b"
  by (induction a) auto

lemma index_entry_artifact:
  assumes "clean_id s"
  shows "index_entry (artifact_name k (IdStr s)) = Return s"
proof -
  have u: "CHR ''_'' \<notin> set s" and d: "CHR ''.'' \<notin> set s"
    using assms by (simp_all add: clean_id_def)
  have "split_on (CHR ''_'') (s @ ''.csv'') = [s @ ''.csv'']"
    using u by (intro split_on_absent) simp
  moreover have "split_on (CHR ''.'') (s @ CHR ''.'' # ''csv'') = s # split_on (CHR ''.'') ''csv''"
    using d by (rule split_on_first)
  moreover have "split_on (CHR ''_'') (''com'' @ CHR ''_'' # (s @ ''.csv''))
      = ''com'' # split_on (CHR ''_'') (s @ ''.csv'')"
    by (rule split_on_first) simp
  moreover have "split_on (CHR ''_'') (''qa'' @ CHR ''_'' # (s @ ''.csv''))
      = ''qa'' # split_on (CHR ''_'') (s @ ''.csv'')"
    by (rule split_on_first) simp
  ultimately show ?thesis
    by (cases k) (simp_all add: index_entry_def artifact_name_def)
qed

lemma endswith_artifact: "endswith (artifact_name k pid) ''.csv''"
  by (cases k) (simp_all add: endswith_def artifact_name_def)

lemma completed_index_member:
  "file \<in> set dir \<Longrightarrow> endswith file ''.csv'' \<Longrightarrow> index_entry file = Return x \<Longrightarrow>
   completed_index dir = Return idx \<Longrightarrow> x \<in> set idx"
proof (induction dir arbitrary: idx)
  case Nil
  then show ?case by simp
next
  case (Cons f dir)
  show ?case
  proof (cases "endswith f ''.csv''")
    case False
    with Cons show ?thesis by auto
  next
    case True
    with Cons.prems(4) obtain y ys where y: "index_entry f = Return y"
      and ys: "completed_index dir = Return ys" and idx: "idx = y # ys"
      by (auto simp: rbind_def split: result.splits)
    show ?thesis
    proof (cases "file = f")
      case True
      with y Cons.prems(3) idx show ?thesis by simp
    next
      case False
      with Cons.prems(1) have "file \<in> set dir" by simp
      from Cons.IH [OF this Cons.prems(2,3) ys] idx show ?thesis by simp
    qed
  qed
qed

text \<open>An artifact of either kind puts the identifier in the index, when the index can be
  built.\<close>

lemma artifact_in_index:
  assumes "clean_id s" and "artifact_name k (IdStr s) \<in> set dir"
    and "completed_index dir = Return idx"
  shows "id_in (IdStr s) idx"
  using completed_index_member [OF assms(2) endswith_artifact index_entry_artifact [OF assms(1)] assms(3)]
  by simp

lemma process_file_inert:
  "\<not> loads f \<Longrightarrow> process_file ev cfg st f = (st, Return ())"
  by (auto simp: process_file_def loads_def split: dir_entry.splits load_result.splits)

lemma loads_data:
  "loads f \<Longrightarrow> \<exists>data. snd f = File (Loaded data) \<and> endswith (fst f) ''.json''"
  by (auto simp: loads_def split: dir_entry.splits load_result.splits)

lemma process_file_loaded:
  assumes "snd f = File (Loaded data)" and "endswith (fst f) ''.json''"
  shows "process_file ev cfg st f =
      (case completed_index (output_dir st) of
         Raise e \<Rightarrow> (st, Raise e)
       | Return output_files \<Rightarrow>
           (case data of
              [] \<Rightarrow> (st, Raise IndexError)
            | kv # others \<Rightarrow>
                (case process_targets ev cfg output_files st (snd kv) of
                   (st', Raise e) \<Rightarrow> (st', Raise e)
                 | (st', Return u) \<Rightarrow> (append_checkpoint (fst f) st', Return ()))))"
  using assms by (simp add: process_file_def)

text \<open>What the body of the loop over the files does to the trace and to the files.\<close>

lemma process_file_run:
  "\<exists>evs. trace (fst (process_file ev cfg st f)) = trace st @ evs
        \<and> set (output_dir st) \<subseteq> set (output_dir (fst (process_file ev cfg st f)))
        \<and> (\<forall>T idx. completed_index (output_dir st) = Return idx \<and> id_in T idx
              \<longrightarrow> (\<forall>e \<in> set evs. \<not> crawls T e))
        \<and> (evs = [] \<or> completed_index (output_dir st) \<noteq> Raise IndexError)"
proof (cases "loads f")
  case False
  then show ?thesis
    by (simp add: process_file_inert)
next
  case True
  then obtain data where d: "snd f = File (Loaded data)" and j: "endswith (fst f) ''.json''"
    using loads_data by blast
  note pf = process_file_loaded [OF d j, of ev cfg st]
  show ?thesis
  proof (cases "completed_index (output_dir st)")
    case (Raise e)
    then show ?thesis by (simp add: pf)
  next
    case (Return idx)
    show ?thesis
    proof (cases data)
      case Nil
      then show ?thesis by (simp add: pf Return)
    next
      case (Cons kv others)
      obtain st' r where pt: "process_targets ev cfg idx st (snd kv) = (st', r)"
        by (cases "process_targets ev cfg idx st (snd kv)")
      obtain evs where tr: "trace st' = trace st @ evs"
        and n: "\<forall>T. id_in T idx \<longrightarrow> (\<forall>e \<in> set evs. \<not> crawls T e)"
        using process_targets_run [of ev cfg idx st "snd kv"] pt by auto
      have out: "set (output_dir st) \<subseteq> set (output_dir st')"
        using process_targets_frame [of st ev cfg idx "snd kv"] pt by simp
      show ?thesis
      proof (cases r)
        case (Raise e)
        then show ?thesis
          using tr n out by (simp add: pf Return Cons pt)
      next
        case (Return u)
        have "trace (fst (process_file ev cfg st f)) = trace st @ (evs @ [CheckpointAppend (fst f)])"
          using tr by (simp add: pf \<open>completed_index (output_dir st) = Return idx\<close> Cons pt Return
              append_checkpoint_def log_event_def)
        moreover have "set (output_dir st) \<subseteq> set (output_dir (fst (process_file ev cfg st f)))"
          using out by (simp add: pf \<open>completed_index (output_dir st) = Return idx\<close> Cons pt Return
              append_checkpoint_def log_event_def)
        moreover have "\<forall>T idx'. completed_index (output_dir st) = Return idx' \<and> id_in T idx'
              \<longrightarrow> (\<forall>e \<in> set (evs @ [CheckpointAppend (fst f)]). \<not> crawls T e)"
          using n \<open>completed_index (output_dir st) = Return idx\<close> by auto
        moreover have "completed_index (output_dir st) \<noteq> Raise IndexError"
          using \<open>completed_index (output_dir st) = Return idx\<close> by simp
        ultimately show ?thesis by blast
      qed
    qed
  qed
qed

text \<open>While the artifact of a target is in the output directory, no pass crawls the
  target.\<close>

lemma process_files_no_crawl:
  assumes "clean_id s"
  shows "artifact_name k (IdStr s) \<in> set (output_dir st) \<Longrightarrow>
     \<exists>evs. trace (fst (process_files ev cfg st files)) = trace st @ evs
          \<and> (\<forall>e \<in> set evs. \<not> crawls (IdStr s) e)"
proof (induction files arbitrary: st)
  case Nil
  then show ?case by simp
next
  case (Cons f files)
  obtain st1 r1 where pf: "process_file ev cfg st f = (st1, r1)"
    by (cases "process_file ev cfg st f")
  obtain evs1 where tr1: "trace st1 = trace st @ evs1"
    and out1: "set (output_dir st) \<subseteq> set (output_dir st1)"
    and n1: "\<forall>T idx. completed_index (output_dir st) = Return idx \<and> id_in T idx
              \<longrightarrow> (\<forall>e \<in> set evs1. \<not> crawls T e)"
    and e1: "evs1 = [] \<or> completed_index (output_dir st) \<noteq> Raise IndexError"
    using process_file_run [of ev cfg st f] pf by auto
  have no1: "\<forall>e \<in> set evs1. \<not> crawls (IdStr s) e"
  proof (cases "completed_index (output_dir st)")
    case (Return idx)
    with n1 artifact_in_index [OF assms Cons.prems Return] show ?thesis by blast
  next
    case (Raise e)
    have "process_file ev cfg st f = (st, Return ()) \<or> process_file ev cfg st f = (st, Raise e)"
    proof (cases "loads f")
      case True
      then obtain data where d: "snd f = File (Loaded data)" and j: "endswith (fst f) ''.json''"
        using loads_data by blast
      show ?thesis
        by (simp add: process_file_loaded [OF d j] Raise)
    next
      case False
      then show ?thesis by (simp add: process_file_inert)
    qed
    with pf tr1 show ?thesis by auto
  qed
  show ?case
  proof (cases r1)
    case (Raise e)
    then show ?thesis
      using pf tr1 no1 by simp
  next
    case (Return u)
    from Cons.prems out1 have "artifact_name k (IdStr s) \<in> set (output_dir st1)"
      by auto
    from Cons.IH [OF this] obtain evs where tr: "trace (fst (process_files ev cfg st1 files)) = trace st1 @ evs"
      and no: "\<forall>e \<in> set evs. \<not> crawls (IdStr s) e"
      by blast
    have "trace (fst (process_files ev cfg st (f # files))) = trace st @ (evs1 @ evs)"
      using pf Return tr tr1 by simp
    moreover have "\<forall>e \<in> set (evs1 @ evs). \<not> crawls (IdStr s) e"
      using no no1 by auto
    ultimately show ?thesis by blast
  qed
qed

lemma run_no_crawl:
  assumes "clean_id s" and "artifact_name k (IdStr s) \<in> set (output_dir st)"
  shows "\<forall>e \<in> set (new_events st (fst (crawl_comments_and_qa ev cfg dir st))). \<not> crawls (IdStr s) e"
proof (cases dir)
  case None
  then show ?thesis
    by (simp add: crawl_comments_and_qa_def new_events_def)
next
  case (Some files)
  show ?thesis
  proof (cases "checkpoint st = Undecodable")
    case True
    then show ?thesis
      by (simp add: crawl_comments_and_qa_def new_events_def Some)
  next
    case False
    then have "crawl_comments_and_qa ev cfg dir st
        = process_files ev cfg st (files_to_process (checkpoint st) files)"
      by (cases "checkpoint st") (simp_all add: crawl_comments_and_qa_def Some)
    then show ?thesis
      using process_files_no_crawl [OF assms, of ev cfg "files_to_process (checkpoint st) files"]
      by (auto simp: new_events_def)
  qed
qed

section \<open>Skipping completed targets\<close>

lemma persisted_artifact_written:
  assumes "last (trace (start_crawling k ev cfg st pid)) = Persist k pid Persisted"
    and "CHR ''/'' \<notin> set (format_id pid)"
  shows "artifact_name k pid \<in> set (output_dir (start_crawling k ev cfg st pid))"
proof -
  obtain evs r where tr: "trace (start_crawling k ev cfg st pid)
        = trace st @ StartCrawl k pid # evs @ [Persist k pid r]"
    and p: "r = Persisted \<longrightarrow> output_dir (start_crawling k ev cfg st pid)
                               = write_file (artifact_name k pid) (output_dir st)"
    using start_crawling_events [of st k ev cfg pid] by blast
  from tr assms(1) have "r = Persisted" by simp
  with p have "output_dir (start_crawling k ev cfg st pid)
      = write_file (artifact_name k pid) (output_dir st)"
    by simp
  moreover have "CHR ''/'' \<notin> set (artifact_name k pid)"
    using assms(2) by (cases k) (auto simp: artifact_name_def)
  ultimately show ?thesis
    by (simp add: write_file_def)
qed

text \<open>
  Counterexample to C1 as stated. The manifest lists the integer 111. Its crawl persists
  \<open>com_111.csv\<close>, and the index rebuilt from the output directory holds the string
  \<open>111\<close>; the integer is not equal to it, so a later pass over a manifest that lists 111
  crawls it again.
\<close>

theorem integer_target_crawled_again:
  "snd integer_target_run = Return ()
   \<and> Persist Com (IdInt 111) Persisted \<in> set (trace (fst integer_target_run))
   \<and> output_dir (fst integer_target_run) = [''com_111.csv'']
   \<and> completed_index (output_dir (fst integer_target_run)) = Return [''111'']
   \<and> \<not> id_in (IdInt 111) [''111'']
   \<and> StartCrawl Com (IdInt 111) \<in> set (new_events (fst integer_target_run) (fst integer_target_again))"
  by code_simp

text \<open>
  C1, amended. For a target whose identifier is a string without underscore, dot or
  slash: when its crawl persists an artifact, then as long as the output directory keeps
  what it held, the index rebuilt from it contains the identifier, a pass over a
  manifest that lists the target skips it, and no later run crawls it.
\<close>

theorem persisted_target_skipped:
  assumes "clean_id s"
    and "last (trace (com_start_crawling ev cfg st (IdStr s))) = Persist Com (IdStr s) Persisted"
    and "set (output_dir (com_start_crawling ev cfg st (IdStr s))) \<subseteq> set (output_dir st2)"
    and "completed_index (output_dir st2) = Return idx"
  shows "s \<in> set idx
    \<and> process_targets ev2 cfg2 idx st2 [[(''sku'', IdStr s)]]
        = (log_event (SkipTarget (IdStr s)) st2, Return ())
    \<and> (\<forall>e \<in> set (new_events st2 (fst (crawl_comments_and_qa ev2 cfg2 dir st2))).
          \<not> crawls (IdStr s) e)"
proof -
  have "CHR ''/'' \<notin> set (format_id (IdStr s))"
    using assms(1) by (simp add: clean_id_def)
  from persisted_artifact_written [of Com ev cfg st "IdStr s", unfolded start_crawling_kind, OF assms(2) this] assms(3)
  have art: "artifact_name Com (IdStr s) \<in> set (output_dir st2)"
    by auto
  from artifact_in_index [OF assms(1) art assms(4)] have "id_in (IdStr s) idx" .
  then show ?thesis
    using run_no_crawl [OF assms(1) art, of ev2 cfg2 dir] by simp
qed

theorem persisted_target_skipped_witness:
  "clean_id ''7''
   \<and> last (trace (com_start_crawling (env_comments [comment_a, comment_b]) (cfg_pages 1) st_fresh (IdStr ''7'')))
       = Persist Com (IdStr ''7'') Persisted
   \<and> output_dir (com_start_crawling (env_comments [comment_a, comment_b]) (cfg_pages 1) st_fresh (IdStr ''7''))
       = [''com_7.csv'']
   \<and> completed_index [''com_7.csv''] = Return [''7'']
   \<and> ''7'' \<in> set [''7'']
   \<and> process_targets env_down (cfg_pages 1) [''7'']
        (com_start_crawling (env_comments [comment_a, comment_b]) (cfg_pages 1) st_fresh (IdStr ''7''))
        [[(''sku'', IdStr ''7'')]]
      = (log_event (SkipTarget (IdStr ''7''))
          (com_start_crawling (env_comments [comment_a, comment_b]) (cfg_pages 1) st_fresh (IdStr ''7'')),
         Return ())"
proof -
  let ?st = "com_start_crawling (env_comments [comment_a, comment_b]) (cfg_pages 1) st_fresh (IdStr ''7'')"
  have h1: "clean_id ''7''"
    by (simp add: clean_id_def)
  have h2: "last (trace ?st) = Persist Com (IdStr ''7'') Persisted"
    by code_simp
  have h3: "set (output_dir ?st) \<subseteq> set (output_dir ?st)"
    by simp
  have o: "output_dir ?st = [''com_7.csv'']"
    by code_simp
  have h4: "completed_index (output_dir ?st) = Return [''7'']"
    unfolding o by code_simp
  from persisted_target_skipped [OF h1 h2 h3 h4, of env_down "cfg_pages 1" None] h1 h2 o h4
  show ?thesis
    by simp
qed

text \<open>
  Counterexample to C10 as stated. The output directory holds the question and answer
  artifact of target 222; a manifest that lists the integer 222 has it crawled all the
  same.
\<close>

theorem artifact_ignored_for_integer_target:
  "artifact_name QA (IdInt 222) \<in> set (output_dir st_qa_artifact)
   \<and> snd integer_target_pass = Return ()
   \<and> StartCrawl Com (IdInt 222) \<in> set (trace (fst integer_target_pass))"
  by code_simp

text \<open>
  C10, amended. For a target whose identifier is a string without underscore, dot or
  slash: the index entry of its artifact is the identifier, whichever the kind of the
  artifact; so with an artifact of either kind in the output directory, the index holds
  the identifier whenever it can be built, and a run of the orchestrator has no crawl of
  the target, of any kind.
\<close>

theorem artifact_of_either_kind_skips:
  assumes "clean_id s" and "artifact_name k (IdStr s) \<in> set (output_dir st)"
  shows "index_entry (artifact_name k (IdStr s)) = Return s
    \<and> (\<forall>idx. completed_index (output_dir st) = Return idx \<longrightarrow> id_in (IdStr s) idx)
    \<and> (\<forall>e \<in> set (new_events st (fst (crawl_comments_and_qa ev cfg dir st))).
          \<not> crawls (IdStr s) e)"
  using index_entry_artifact [OF assms(1), of k] artifact_in_index [OF assms]
    run_no_crawl [OF assms, of ev cfg dir]
  by blast

theorem artifact_of_either_kind_skips_witness:
  "clean_id ''222''
   \<and> artifact_name QA (IdStr ''222'') \<in> set (output_dir st_qa_artifact)
   \<and> index_entry (artifact_name QA (IdStr ''222'')) = Return ''222''
   \<and> completed_index (output_dir st_qa_artifact) = Return [''222'']
   \<and> id_in (IdStr ''222'') [''222'']
   \<and> new_events st_qa_artifact (fst string_target_pass)
       = [SkipTarget (IdStr ''222''), CheckpointAppend ''m.json'']
   \<and> \<not> crawls (IdStr ''222'') (SkipTarget (IdStr ''222''))"
proof -
  have h1: "clean_id ''222''"
    by (simp add: clean_id_def)
  have h2: "artifact_name QA (IdStr ''222'') \<in> set (output_dir st_qa_artifact)"
    by (simp add: artifact_name_def st_qa_artifact_def)
  have ix: "completed_index (output_dir st_qa_artifact) = Return [''222'']"
    by code_simp
  have ev: "new_events st_qa_artifact (fst string_target_pass)
       = [SkipTarget (IdStr ''222''), CheckpointAppend ''m.json'']"
    by code_simp
  from artifact_of_either_kind_skips [OF h1 h2,
      of "env_comments [comment_a, comment_b]" "cfg_pages 1"
         "Some [(''m.json'', manifest_of [IdStr ''222''])]"]
    h1 h2 ix ev
  show ?thesis
    by (simp add: string_target_pass_def [symmetric])
qed

section \<open>The checkpoint file\<close>

lemma universal_newlines_plain: "CR \<notin> set s \<Longrightarrow> universal_newlines s = s"
  by (induction s rule: universal_newlines.induct) auto

lemma universal_newlines_append:
  "c = [] \<or> last c \<noteq> CR \<Longrightarrow>
   universal_newlines (c @ d) = universal_newlines c @ universal_newlines d"
proof (induction c rule: universal_newlines.induct)
  case 1
  then show ?case by simp
next
  case (2 x)
  then show ?case by (cases d) auto
next
  case (3 x y zs)
  then show ?case by (auto split: if_splits)
qed

lemma universal_newlines_ended:
  "c \<noteq> [] \<Longrightarrow> last c = LF \<Longrightarrow>
   universal_newlines c \<noteq> [] \<and> last (universal_newlines c) = LF"
proof (induction c rule: universal_newlines.induct)
  case 1
  then show ?case by simp
next
  case (2 x)
  then show ?case by simp
next
  case (3 x y zs)
  then show ?case by (cases zs) (auto split: if_splits)
qed

lemma lines_from_append:
  "u \<noteq> [] \<Longrightarrow> last u = LF \<Longrightarrow> lines_from cur (u @ v) = lines_from cur u @ lines_from [] v"
proof (induction u arbitrary: cur)
  case Nil
  then show ?case by simp
next
  case (Cons x u)
  then show ?case by (cases "u = []") auto
qed

lemma lines_from_one_line:
  "LF \<notin> set n \<Longrightarrow> lines_from cur (n @ [LF]) = [cur @ n @ [LF]]"
  by (induction n arbitrary: cur) auto

lemma dropWhile_absent: "x \<notin> set xs \<Longrightarrow> dropWhile (\<lambda>c. c = x) xs = xs"
  by (cases xs) auto

lemma strip_newline_line: "LF \<notin> set n \<Longrightarrow> strip_newline (n @ [LF]) = n"
proof (cases n)
  case Nil
  then show ?thesis by (simp add: strip_newline_def)
next
  case (Cons x xs)
  assume a: "LF \<notin> set n"
  then have "dropWhile (\<lambda>c. c = LF) (n @ [LF]) = n @ [LF]"
    using Cons by auto
  moreover have "dropWhile (\<lambda>c. c = LF) (rev n) = rev n"
    using a by (intro dropWhile_absent) simp
  ultimately show ?thesis
    by (simp add: strip_newline_def)
qed

text \<open>Appending a name and a line break to a checkpoint text whose lines are ended adds
  the name to what a run reads from it.\<close>

lemma checkpoint_content_append:
  assumes "c = [] \<or> last c = LF" and "one_line name"
  shows "checkpoint_content (c @ name @ [LF]) = checkpoint_content c @ [name]"
proof -
  have lf: "LF \<notin> set name" and cr: "CR \<notin> set name"
    using assms(2) by (simp_all add: one_line_def)
  have "c = [] \<or> last c \<noteq> CR"
    using assms(1) by auto
  then have u: "universal_newlines (c @ name @ [LF]) = universal_newlines c @ name @ [LF]"
    using cr by (simp add: universal_newlines_append universal_newlines_plain)
  show ?thesis
  proof (cases "c = []")
    case True
    then show ?thesis
      using lf by (simp add: checkpoint_content_def readlines_def u lines_from_one_line [of name "[]", simplified]
          strip_newline_line universal_newlines_plain cr)
  next
    case False
    with assms(1) have "universal_newlines c \<noteq> [] \<and> last (universal_newlines c) = LF"
      by (intro universal_newlines_ended) auto
    then have "lines_from [] (universal_newlines c @ name @ [LF])
        = lines_from [] (universal_newlines c) @ lines_from [] (name @ [LF])"
      by (intro lines_from_append) auto
    then show ?thesis
      using lf by (simp add: checkpoint_content_def readlines_def u lines_from_one_line [of name "[]", simplified]
          strip_newline_line)
  qed
qed

lemma append_checkpoint_recorded:
  assumes "ended_lines (checkpoint st)" and "checkpoint st \<noteq> Undecodable" and "one_line name"
  shows "recorded (checkpoint (append_checkpoint name st)) = recorded (checkpoint st) @ [name]
    \<and> ended_lines (checkpoint (append_checkpoint name st))
    \<and> checkpoint (append_checkpoint name st) \<noteq> Undecodable"
proof (cases "checkpoint st")
  case Absent
  then show ?thesis
    using checkpoint_content_append [of "[]" name] assms(3)
    by (simp add: append_checkpoint_def log_event_def checkpoint_content_def readlines_def)
next
  case Undecodable
  with assms(2) show ?thesis by simp
next
  case (Text c)
  then show ?thesis
    using checkpoint_content_append [of c name] assms(1,3)
    by (simp add: append_checkpoint_def log_event_def)
qed

lemma appended_append: "appended (xs @ ys) = appended xs @ appended ys"
  by (induction xs rule: appended.induct) auto

lemma appended_none: "\<forall>e \<in> set evs. \<not> is_checkpoint e \<Longrightarrow> appended evs = []"
  by (induction evs rule: appended.induct) auto

lemma appended_member: "name \<in> set (appended evs) \<longleftrightarrow> CheckpointAppend name \<in> set evs"
  by (induction evs rule: appended.induct) auto

section \<open>Appends to the checkpoint\<close>

text \<open>The body of the loop over the files, when it returns: nothing happens for an entry
  that does not load; for one that loads, every listed target is dealt with and then the
  name is appended.\<close>

lemma process_file_returns:
  assumes "process_file ev cfg st f = (st', Return ())"
  shows "(\<not> loads f \<and> st' = st)
    \<or> (\<exists>data seg st2. snd f = File (Loaded data) \<and> loads f
          \<and> trace st2 = trace st @ seg \<and> (\<forall>e \<in> set seg. \<not> is_checkpoint e)
          \<and> map Some (settled seg) = listed data
          \<and> checkpoint st2 = checkpoint st
          \<and> st' = append_checkpoint (fst f) st2)"
proof (cases "loads f")
  case False
  with assms show ?thesis
    by (simp add: process_file_inert)
next
  case True
  then obtain data where d: "snd f = File (Loaded data)" and j: "endswith (fst f) ''.json''"
    using loads_data by blast
  note pf = process_file_loaded [OF d j, of ev cfg st]
  from assms pf obtain idx where idx: "completed_index (output_dir st) = Return idx"
    by (cases "completed_index (output_dir st)") auto
  from assms pf idx obtain kv others where data: "data = kv # others"
    by (cases data) auto
  obtain st2 r where pt: "process_targets ev cfg idx st (snd kv) = (st2, r)"
    by (cases "process_targets ev cfg idx st (snd kv)")
  from assms pf idx data pt have r: "r = Return ()" and st': "st' = append_checkpoint (fst f) st2"
    by (cases r; simp)+
  obtain seg where tr: "trace st2 = trace st @ seg"
    and c: "\<forall>e \<in> set seg. \<not> is_checkpoint e"
    and s: "map Some (settled seg) = map (\<lambda>info. map_of info ''sku'') (snd kv)"
    using process_targets_run [of ev cfg idx st "snd kv"] pt r by auto
  have cp: "checkpoint st2 = checkpoint st"
    using process_targets_frame [of st ev cfg idx "snd kv"] pt by simp
  have "map Some (settled seg) = listed data"
    using s data by (simp add: listed_def)
  with d True tr c cp st' show ?thesis
    by blast
qed

text \<open>The events of the body of the loop, whether it returns or raises.\<close>

lemma process_file_events:
  "\<exists>evs. trace (fst (process_file ev cfg st f)) = trace st @ evs
     \<and> ((\<forall>e \<in> set evs. \<not> is_checkpoint e)
        \<or> (\<exists>data seg. snd f = File (Loaded data) \<and> evs = seg @ [CheckpointAppend (fst f)]
              \<and> (\<forall>e \<in> set seg. \<not> is_checkpoint e) \<and> map Some (settled seg) = listed data))"
proof (cases "process_file ev cfg st f")
  case (Pair st' r)
  show ?thesis
  proof (cases r)
    case (Return u)
    with Pair have "process_file ev cfg st f = (st', Return ())" by simp
    from process_file_returns [OF this] show ?thesis
    proof
      assume "\<not> loads f \<and> st' = st"
      with Pair show ?thesis by simp
    next
      assume "\<exists>data seg st2. snd f = File (Loaded data) \<and> loads f
          \<and> trace st2 = trace st @ seg \<and> (\<forall>e \<in> set seg. \<not> is_checkpoint e)
          \<and> map Some (settled seg) = listed data
          \<and> checkpoint st2 = checkpoint st
          \<and> st' = append_checkpoint (fst f) st2"
      then obtain data seg st2 where d: "snd f = File (Loaded data)"
        and tr: "trace st2 = trace st @ seg" and c: "\<forall>e \<in> set seg. \<not> is_checkpoint e"
        and s: "map Some (settled seg) = listed data"
        and st': "st' = append_checkpoint (fst f) st2"
        by blast
      have "trace (fst (process_file ev cfg st f)) = trace st @ (seg @ [CheckpointAppend (fst f)])"
        using Pair st' tr by (simp add: append_checkpoint_def log_event_def)
      with d c s show ?thesis by blast
    qed
  next
    case (Raise e)
    show ?thesis
    proof (cases "loads f")
      case False
      with Pair Raise show ?thesis by (simp add: process_file_inert)
    next
      case True
      then obtain data where d: "snd f = File (Loaded data)" and j: "endswith (fst f) ''.json''"
        using loads_data by blast
      note pf = process_file_loaded [OF d j, of ev cfg st]
      show ?thesis
      proof (cases "completed_index (output_dir st)")
        case (Raise e')
        then show ?thesis by (simp add: pf)
      next
        case (Return idx)
        show ?thesis
        proof (cases data)
          case Nil
          then show ?thesis by (simp add: pf Return)
        next
          case (Cons kv others)
          obtain st2 r2 where pt: "process_targets ev cfg idx st (snd kv) = (st2, r2)"
            by (cases "process_targets ev cfg idx st (snd kv)")
          have r2: "\<exists>e. r2 = Raise e"
            using Pair \<open>r = Raise e\<close> pf Return Cons pt by (cases r2) auto
          obtain seg where tr: "trace st2 = trace st @ seg"
            and c: "\<forall>e \<in> set seg. \<not> is_checkpoint e"
            using process_targets_run [of ev cfg idx st "snd kv"] pt by auto
          have "trace (fst (process_file ev cfg st f)) = trace st @ seg"
            using r2 tr by (auto simp: pf Return Cons pt)
          with c show ?thesis by blast
        qed
      qed
    qed
  qed
qed

lemma justified_none: "\<forall>e \<in> set evs. \<not> is_checkpoint e \<Longrightarrow> justified files evs"
  by (auto simp: justified_def)

lemma justified_one:
  assumes "(name, File (Loaded data)) \<in> set files" and "\<forall>e \<in> set seg. \<not> is_checkpoint e"
    and "map Some (settled seg) = listed data"
  shows "justified files (seg @ [CheckpointAppend name])"
  unfolding justified_def
proof (intro allI impI)
  fix pre name' post
  assume eq: "seg @ [CheckpointAppend name] = pre @ CheckpointAppend name' # post"
  have "post = []"
  proof (rule ccontr)
    assume "post \<noteq> []"
    then obtain post' x where p: "post = post' @ [x]"
      by (metis rev_exhaust)
    with eq have "seg = pre @ CheckpointAppend name' # post'"
      by (metis append.assoc append_Cons butlast_snoc)
    with assms(2) show False by auto
  qed
  with eq have "pre = seg" and "name' = name" by auto
  with assms(1,3) show "\<exists>data before seg'. (name', File (Loaded data)) \<in> set files
      \<and> pre = before @ seg' \<and> map Some (settled seg') = listed data"
    by (metis append_Nil)
qed

lemma justified_append:
  assumes "justified files xs" and "justified files ys"
  shows "justified files (xs @ ys)"
  unfolding justified_def
proof (intro allI impI)
  fix pre name post
  assume eq: "xs @ ys = pre @ CheckpointAppend name # post"
  then consider (left) us where "xs = pre @ CheckpointAppend name # us"
    | (right) us where "pre = xs @ us" and "ys = us @ CheckpointAppend name # post"
    by (auto simp: append_eq_append_conv2 append_eq_Cons_conv Cons_eq_append_conv)
  then show "\<exists>data before seg. (name, File (Loaded data)) \<in> set files
      \<and> pre = before @ seg \<and> map Some (settled seg) = listed data"
  proof cases
    case left
    with assms(1) show ?thesis
      unfolding justified_def by blast
  next
    case right
    with assms(2) obtain data before seg where "(name, File (Loaded data)) \<in> set files"
      and "us = before @ seg" and "map Some (settled seg) = listed data"
      unfolding justified_def by blast
    with right(1) show ?thesis
      by (metis append.assoc)
  qed
qed

lemma process_files_justified:
  "set fs \<subseteq> set files \<Longrightarrow>
   \<exists>evs. trace (fst (process_files ev cfg st fs)) = trace st @ evs \<and> justified files evs"
proof (induction fs arbitrary: st)
  case Nil
  then show ?case by (simp add: justified_def)
next
  case (Cons f fs)
  obtain st1 r1 where pf: "process_file ev cfg st f = (st1, r1)"
    by (cases "process_file ev cfg st f")
  obtain evs1 where tr1: "trace st1 = trace st @ evs1"
    and sh: "(\<forall>e \<in> set evs1. \<not> is_checkpoint e)
        \<or> (\<exists>data seg. snd f = File (Loaded data) \<and> evs1 = seg @ [CheckpointAppend (fst f)]
              \<and> (\<forall>e \<in> set seg. \<not> is_checkpoint e) \<and> map Some (settled seg) = listed data)"
    using process_file_events [of ev cfg st f] pf by auto
  have f: "f \<in> set files"
    using Cons.prems by simp
  have j1: "justified files evs1"
    using sh
  proof
    assume "\<forall>e \<in> set evs1. \<not> is_checkpoint e"
    then show ?thesis by (rule justified_none)
  next
    assume "\<exists>data seg. snd f = File (Loaded data) \<and> evs1 = seg @ [CheckpointAppend (fst f)]
              \<and> (\<forall>e \<in> set seg. \<not> is_checkpoint e) \<and> map Some (settled seg) = listed data"
    then obtain data seg where d: "snd f = File (Loaded data)"
      and e: "evs1 = seg @ [CheckpointAppend (fst f)]"
      and c: "\<forall>e \<in> set seg. \<not> is_checkpoint e" and s: "map Some (settled seg) = listed data"
      by blast
    from f d have "(fst f, File (Loaded data)) \<in> set files"
      by (metis prod.collapse)
    from justified_one [OF this c s] e show ?thesis by simp
  qed
  show ?case
  proof (cases r1)
    case (Raise e)
    with pf tr1 j1 show ?thesis by auto
  next
    case (Return u)
    from Cons.prems have "set fs \<subseteq> set files" by simp
    from Cons.IH [OF this, of st1] obtain evs where tr: "trace (fst (process_files ev cfg st1 fs)) = trace st1 @ evs"
      and j: "justified files evs"
      by blast
    have "trace (fst (process_files ev cfg st (f # fs))) = trace st @ (evs1 @ evs)"
      using pf Return tr tr1 by simp
    with justified_append [OF j1 j] show ?thesis by blast
  qed
qed

lemma files_to_process_subset: "set (files_to_process cp files) \<subseteq> set files"
  by (cases cp) (auto simp: files_to_process_def)

lemma run_justified:
  "justified files (new_events st (fst (crawl_comments_and_qa ev cfg (Some files) st)))"
proof (cases "checkpoint st = Undecodable")
  case True
  then show ?thesis
    by (simp add: crawl_comments_and_qa_def new_events_def justified_def)
next
  case False
  then have "crawl_comments_and_qa ev cfg (Some files) st
      = process_files ev cfg st (files_to_process (checkpoint st) files)"
    by (cases "checkpoint st") (simp_all add: crawl_comments_and_qa_def)
  then show ?thesis
    using process_files_justified [OF files_to_process_subset [of "checkpoint st" files], of ev cfg st]
    by (auto simp: new_events_def)
qed

text \<open>
  C2. In a run of the orchestrator, every append of a manifest name to the checkpoint
  names a manifest of the directory that decoded, and comes right after a stretch of
  events in which each target that the manifest lists has been dealt with, in the order
  of the manifest: skipped because its artifact exists, or crawled up to the outcome of
  the persister (persisted, skipped or failed). For a manifest that fails to decode the
  body of the loop changes nothing, and its name is not appended in the run.
\<close>

theorem checkpoint_after_all_targets:
  "(\<forall>pre name post.
      new_events st (fst (crawl_comments_and_qa ev cfg (Some files) st))
        = pre @ CheckpointAppend name # post \<longrightarrow>
      (\<exists>data before seg. (name, File (Loaded data)) \<in> set files \<and> pre = before @ seg
          \<and> map Some (settled seg) = listed data))
   \<and> process_file ev cfg st (bad, File DecodeFails) = (st, Return ())
   \<and> ((\<forall>f \<in> set files. fst f = bad \<longrightarrow> snd f = File DecodeFails) \<longrightarrow>
        bad \<notin> set (appended (new_events st (fst (crawl_comments_and_qa ev cfg (Some files) st)))))"
proof (intro conjI)
  let ?evs = "new_events st (fst (crawl_comments_and_qa ev cfg (Some files) st))"
  have j: "justified files ?evs"
    by (rule run_justified)
  then show "\<forall>pre name post. ?evs = pre @ CheckpointAppend name # post \<longrightarrow>
      (\<exists>data before seg. (name, File (Loaded data)) \<in> set files \<and> pre = before @ seg
          \<and> map Some (settled seg) = listed data)"
    unfolding justified_def .
  show "process_file ev cfg st (bad, File DecodeFails) = (st, Return ())"
    by (simp add: process_file_def)
  show "(\<forall>f \<in> set files. fst f = bad \<longrightarrow> snd f = File DecodeFails) \<longrightarrow> bad \<notin> set (appended ?evs)"
  proof
    assume all: "\<forall>f \<in> set files. fst f = bad \<longrightarrow> snd f = File DecodeFails"
    show "bad \<notin> set (appended ?evs)"
    proof
      assume "bad \<in> set (appended ?evs)"
      then have "CheckpointAppend bad \<in> set ?evs"
        by (simp add: appended_member)
      then obtain pre post where "?evs = pre @ CheckpointAppend bad # post"
        by (auto simp: in_set_conv_decomp)
      with j obtain data where "(bad, File (Loaded data)) \<in> set files"
        unfolding justified_def by blast
      with all show False by fastforce
    qed
  qed
qed

theorem checkpoint_after_all_targets_witness:
  "new_events st_fresh
      (fst (crawl_comments_and_qa (env_comments [comment_a]) (cfg_pages 1) (Some two_manifests) st_fresh))
     = butlast (new_events st_fresh
         (fst (crawl_comments_and_qa (env_comments [comment_a]) (cfg_pages 1) (Some two_manifests) st_fresh)))
       @ CheckpointAppend ''m.json'' # []
   \<and> settled (butlast (new_events st_fresh
         (fst (crawl_comments_and_qa (env_comments [comment_a]) (cfg_pages 1) (Some two_manifests) st_fresh))))
     = [IdStr ''7'']
   \<and> (\<exists>data before seg. (''m.json'', File (Loaded data)) \<in> set two_manifests
         \<and> butlast (new_events st_fresh
              (fst (crawl_comments_and_qa (env_comments [comment_a]) (cfg_pages 1) (Some two_manifests) st_fresh)))
            = before @ seg
         \<and> map Some (settled seg) = listed data)
   \<and> ''bad.json'' \<notin> set (appended (new_events st_fresh
         (fst (crawl_comments_and_qa (env_comments [comment_a]) (cfg_pages 1) (Some two_manifests) st_fresh))))
   \<and> checkpoint (fst (crawl_comments_and_qa (env_comments [comment_a]) (cfg_pages 1) (Some two_manifests) st_fresh))
     = Text (''m.json'' @ [LF])"
proof -
  let ?evs = "new_events st_fresh
      (fst (crawl_comments_and_qa (env_comments [comment_a]) (cfg_pages 1) (Some two_manifests) st_fresh))"
  have h1: "?evs = butlast ?evs @ CheckpointAppend ''m.json'' # []"
    by code_simp
  have h2: "\<forall>f \<in> set two_manifests. fst f = ''bad.json'' \<longrightarrow> snd f = File DecodeFails"
    by (simp add: two_manifests_def)
  have s: "settled (butlast ?evs) = [IdStr ''7'']"
    by code_simp
  have c: "checkpoint (fst (crawl_comments_and_qa (env_comments [comment_a]) (cfg_pages 1) (Some two_manifests) st_fresh))
     = Text (''m.json'' @ [LF])"
    by code_simp
  note t = checkpoint_after_all_targets [of st_fresh "env_comments [comment_a]" "cfg_pages 1"
      two_manifests "''bad.json''"]
  from t have "\<exists>data before seg. (''m.json'', File (Loaded data)) \<in> set two_manifests
         \<and> butlast ?evs = before @ seg \<and> map Some (settled seg) = listed data"
    using h1 by blast
  moreover from t h2 have "''bad.json'' \<notin> set (appended ?evs)"
    by blast
  ultimately show ?thesis
    using h1 s c by blast
qed

text \<open>What a pass over a list of files leaves in the checkpoint, when it returns.\<close>

lemma process_file_records:
  assumes "process_file ev cfg st f = (st', Return ())"
    and "ended_lines (checkpoint st)" and "checkpoint st \<noteq> Undecodable" and "one_line (fst f)"
  shows "\<exists>evs. trace st' = trace st @ evs
      \<and> appended evs = (if loads f then [fst f] else [])
      \<and> recorded (checkpoint st') = recorded (checkpoint st) @ appended evs
      \<and> ended_lines (checkpoint st') \<and> checkpoint st' \<noteq> Undecodable"
  using process_file_returns [OF assms(1)]
proof
  assume "\<not> loads f \<and> st' = st"
  with assms(2,3) show ?thesis by simp
next
  assume "\<exists>data seg st2. snd f = File (Loaded data) \<and> loads f
          \<and> trace st2 = trace st @ seg \<and> (\<forall>e \<in> set seg. \<not> is_checkpoint e)
          \<and> map Some (settled seg) = listed data
          \<and> checkpoint st2 = checkpoint st
          \<and> st' = append_checkpoint (fst f) st2"
  then obtain seg st2 where l: "loads f" and tr: "trace st2 = trace st @ seg"
    and c: "\<forall>e \<in> set seg. \<not> is_checkpoint e" and cp: "checkpoint st2 = checkpoint st"
    and st': "st' = append_checkpoint (fst f) st2"
    by blast
  have rec: "recorded (checkpoint st') = recorded (checkpoint st) @ [fst f]
      \<and> ended_lines (checkpoint st') \<and> checkpoint st' \<noteq> Undecodable"
    using append_checkpoint_recorded [of st2 "fst f"] assms(2,3,4) cp st' by simp
  have "trace st' = trace st @ (seg @ [CheckpointAppend (fst f)])"
    using st' tr by (simp add: append_checkpoint_def log_event_def)
  moreover have "appended (seg @ [CheckpointAppend (fst f)]) = [fst f]"
    using appended_none [OF c] by (simp add: appended_append)
  ultimately show ?thesis
    using rec l by (metis (full_types))
qed

lemma process_files_records:
  assumes "process_files ev cfg st fs = (st', Return ())"
    and "ended_lines (checkpoint st)" and "checkpoint st \<noteq> Undecodable"
    and "\<forall>f \<in> set fs. one_line (fst f)"
  shows "\<exists>evs. trace st' = trace st @ evs
      \<and> recorded (checkpoint st') = recorded (checkpoint st) @ appended evs
      \<and> (\<forall>f \<in> set fs. loads f \<longrightarrow> fst f \<in> set (appended evs))
      \<and> ended_lines (checkpoint st') \<and> checkpoint st' \<noteq> Undecodable"
  using assms
proof (induction fs arbitrary: st)
  case Nil
  then show ?case by simp
next
  case (Cons f fs)
  obtain st1 r1 where pf: "process_file ev cfg st f = (st1, r1)"
    by (cases "process_file ev cfg st f")
  from Cons.prems(1) pf have r1: "r1 = Return ()"
    by (cases r1) auto
  from Cons.prems(1) pf r1 have rest: "process_files ev cfg st1 fs = (st', Return ())"
    by simp
  from Cons.prems(4) have ol: "one_line (fst f)" and ols: "\<forall>f \<in> set fs. one_line (fst f)"
    by simp_all
  obtain evs1 where tr1: "trace st1 = trace st @ evs1"
    and a1: "appended evs1 = (if loads f then [fst f] else [])"
    and rec1: "recorded (checkpoint st1) = recorded (checkpoint st) @ appended evs1"
    and e1: "ended_lines (checkpoint st1)" and u1: "checkpoint st1 \<noteq> Undecodable"
    using process_file_records [OF pf [unfolded r1] Cons.prems(2,3) ol] by blast
  obtain evs where tr: "trace st' = trace st1 @ evs"
    and rec: "recorded (checkpoint st') = recorded (checkpoint st1) @ appended evs"
    and ld: "\<forall>f \<in> set fs. loads f \<longrightarrow> fst f \<in> set (appended evs)"
    and e: "ended_lines (checkpoint st')" and u: "checkpoint st' \<noteq> Undecodable"
    using Cons.IH [OF rest e1 u1 ols] by blast
  have "trace st' = trace st @ (evs1 @ evs)"
    using tr tr1 by simp
  moreover have "recorded (checkpoint st') = recorded (checkpoint st) @ appended (evs1 @ evs)"
    using rec rec1 by (simp add: appended_append)
  moreover have "\<forall>g \<in> set (f # fs). loads g \<longrightarrow> fst g \<in> set (appended (evs1 @ evs))"
    using ld a1 by (auto simp: appended_append)
  ultimately show ?case
    using e u by blast
qed

lemma process_files_inert:
  "\<forall>f \<in> set fs. \<not> loads f \<Longrightarrow> process_files ev cfg st fs = (st, Return ())"
  by (induction fs) (simp_all add: process_file_inert)

lemma files_to_process_recorded:
  "cp \<noteq> Undecodable \<Longrightarrow>
   files_to_process cp files = filter (\<lambda>f. fst f \<notin> set (recorded cp)) files"
  by (cases cp) (simp_all add: files_to_process_def)

text \<open>
  C3. Let a first run over a manifest directory return, the checkpoint file being one
  that the orchestrator has written (every line ended) and the file names being free of
  line breaks. Then a second run over the same directory, from the state the first one
  left and whatever the service answers, changes nothing: it makes no request. Every
  name appended in the first run is read back from the checkpoint and filtered out of
  the files to process.
\<close>

theorem second_run_fetches_nothing:
  assumes "crawl_comments_and_qa ev1 cfg1 (Some files) st0 = (st1, Return ())"
    and "ended_lines (checkpoint st0)"
    and "\<forall>f \<in> set files. one_line (fst f)"
  shows "crawl_comments_and_qa ev2 cfg2 (Some files) st1 = (st1, Return ())
    \<and> (\<forall>name \<in> set (appended (new_events st0 st1)).
          name \<in> set (recorded (checkpoint st1))
          \<and> name \<notin> fst ` set (files_to_process (checkpoint st1) files))"
proof (cases "checkpoint st0 = Undecodable")
  case True
  with assms(1) have "st1 = st0"
    by (simp add: crawl_comments_and_qa_def)
  with True show ?thesis
    by (simp add: crawl_comments_and_qa_def new_events_def)
next
  case False
  let ?fs0 = "files_to_process (checkpoint st0) files"
  have run1: "process_files ev1 cfg1 st0 ?fs0 = (st1, Return ())"
    using assms(1) False by (cases "checkpoint st0") (simp_all add: crawl_comments_and_qa_def)
  have ol: "\<forall>f \<in> set ?fs0. one_line (fst f)"
    using assms(3) files_to_process_subset [of "checkpoint st0" files] by blast
  obtain evs where tr: "trace st1 = trace st0 @ evs"
    and rec: "recorded (checkpoint st1) = recorded (checkpoint st0) @ appended evs"
    and ld: "\<forall>f \<in> set ?fs0. loads f \<longrightarrow> fst f \<in> set (appended evs)"
    and u: "checkpoint st1 \<noteq> Undecodable"
    using process_files_records [OF run1 assms(2) False ol] by blast
  have ne: "new_events st0 st1 = evs"
    using tr by (simp add: new_events_def)
  let ?fs1 = "files_to_process (checkpoint st1) files"
  have "\<forall>f \<in> set ?fs1. \<not> loads f"
  proof
    fix f
    assume f: "f \<in> set ?fs1"
    then have fin: "f \<in> set files" and nr: "fst f \<notin> set (recorded (checkpoint st1))"
      by (simp_all add: files_to_process_recorded [OF u])
    from nr rec have "fst f \<notin> set (recorded (checkpoint st0))" and na: "fst f \<notin> set (appended evs)"
      by simp_all
    with fin have "f \<in> set ?fs0"
      by (simp add: files_to_process_recorded [OF False])
    with ld na show "\<not> loads f" by blast
  qed
  then have "process_files ev2 cfg2 st1 ?fs1 = (st1, Return ())"
    by (rule process_files_inert)
  then have run2: "crawl_comments_and_qa ev2 cfg2 (Some files) st1 = (st1, Return ())"
    using u by (cases "checkpoint st1") (simp_all add: crawl_comments_and_qa_def)
  have "\<forall>name \<in> set (appended evs). name \<in> set (recorded (checkpoint st1))
          \<and> name \<notin> fst ` set ?fs1"
    using rec by (auto simp: files_to_process_recorded [OF u])
  with run2 ne show ?thesis by simp
qed

theorem second_run_fetches_nothing_witness:
  "crawl_comments_and_qa (env_comments [comment_a]) (cfg_pages 1) (Some two_manifests) st_fresh
     = (fst (crawl_comments_and_qa (env_comments [comment_a]) (cfg_pages 1) (Some two_manifests) st_fresh),
        Return ())
   \<and> ended_lines (checkpoint st_fresh)
   \<and> one_line ''bad.json'' \<and> one_line ''m.json''
   \<and> appended (new_events st_fresh
        (fst (crawl_comments_and_qa (env_comments [comment_a]) (cfg_pages 1) (Some two_manifests) st_fresh)))
      = [''m.json'']
   \<and> crawl_comments_and_qa (env_comments [comment_a, comment_b]) (cfg_pages 2) (Some two_manifests)
        (fst (crawl_comments_and_qa (env_comments [comment_a]) (cfg_pages 1) (Some two_manifests) st_fresh))
     = (fst (crawl_comments_and_qa (env_comments [comment_a]) (cfg_pages 1) (Some two_manifests) st_fresh),
        Return ())
   \<and> ''m.json'' \<in> set (recorded (checkpoint
        (fst (crawl_comments_and_qa (env_comments [comment_a]) (cfg_pages 1) (Some two_manifests) st_fresh))))"
proof -
  let ?st1 = "fst (crawl_comments_and_qa (env_comments [comment_a]) (cfg_pages 1) (Some two_manifests) st_fresh)"
  have h1: "crawl_comments_and_qa (env_comments [comment_a]) (cfg_pages 1) (Some two_manifests) st_fresh
     = (?st1, Return ())"
    by code_simp
  have h2: "ended_lines (checkpoint st_fresh)"
    by (simp add: st_fresh_def)
  have o: "one_line ''bad.json''" "one_line ''m.json''"
    by (simp_all add: one_line_def)
  then have h3: "\<forall>f \<in> set two_manifests. one_line (fst f)"
    by (simp add: two_manifests_def)
  have a: "appended (new_events st_fresh ?st1) = [''m.json'']"
    by code_simp
  from second_run_fetches_nothing [OF h1 h2 h3, of "env_comments [comment_a, comment_b]" "cfg_pages 2"]
    a h1 h2 o
  show ?thesis
    by simp
qed

end
